theory Spec2Isabelle
  imports Main "HOL-Library.AList" "HOL-Library.Multiset"
begin

section \<open>Shared types (types.ts)\<close>

text \<open>
  The string-literal unions of the type declarations become datatypes. A \<open>Date\<close> is
  its millisecond timestamp (\<open>getTime()\<close>), an \<open>int\<close>; every \<open>new Date()\<close>
  the code evaluates is an argument \<open>now\<close> of the modelled operation.
\<close>

datatype taskPriority = Low | Medium | High | Urgent

datatype taskStatus = Queued | Processing | WaitingApproval | Completed | Failed

datatype userRole = Superadmin | Admin | Developer

datatype workflowStatus = Pending | Approved | Rejected | Expired

text \<open>
  A \<open>Task\<close>, with the fields the queue reads or writes. The remaining fields of the
  interface (\<open>type\<close>, \<open>requesterId\<close>, \<open>websiteTarget\<close>, \<open>estimatedTime\<close>,
  \<open>description\<close>, \<open>context\<close>) only reach the logger and the status report and
  are left out.
\<close>

record task =
  task_id :: string
  priority :: taskPriority
  dependencies :: "string list"
  resources :: "string list"
  status :: taskStatus
  createdAt :: int
  startedAt :: "int option"
  completedAt :: "int option"

record user =
  userId :: string
  user_name :: string
  role :: userRole
  permissions :: "string list"

record approvalStage =
  level :: nat
  stage_role :: userRole
  required :: bool
  timeout :: nat
  approvedBy :: "string option"
  approvedAt :: "int option"

record approvalWorkflow =
  taskId :: string
  stages :: "approvalStage list"
  currentStage :: nat
  requiredApprovals :: nat
  wf_status :: workflowStatus

section \<open>The approval engine (workflow/approval-engine.ts)\<close>

text \<open>
  The engine owns two \<open>Map\<close>s, read and written by key only, hence partial functions.
  Each \<open>this.emit(...)\<close> is recorded, in order, in \<open>notified\<close>, with the values
  the listeners are handed at that moment. The logger is not part of the state.
\<close>

datatype engineEvent =
    StageApproved approvalWorkflow approvalStage user
  | WorkflowRejected approvalWorkflow user string
  | WorkflowApproved approvalWorkflow
  | StageChanged approvalWorkflow approvalStage
  | EmergencyApproval approvalWorkflow user

record approvalEngine =
  workflows :: "string \<rightharpoonup> approvalWorkflow"
  users :: "string \<rightharpoonup> user"
  notified :: "engineEvent list"

text \<open>
  Every failure of the engine is a thrown \<open>Error\<close> that differs in its message only:
  \<open>UnknownWorkflow\<close> is "Workflow for task ... not found", \<open>UnknownUser\<close> is
  "User ... not found" (in \<open>approve\<close>: "User ... is not authorized to approve
  workflows"), \<open>NoCurrentStage\<close> is "No current stage in workflow", and \<open>Forbidden\<close>
  is "User ... cannot approve at stage ..." or "Only superadmin can use emergency
  approval".
\<close>

datatype engineError = UnknownWorkflow | UnknownUser | NoCurrentStage | Forbidden

definition newEngine :: "user list \<Rightarrow> approvalEngine" where
  "newEngine us =
     \<lparr> workflows = Map.empty,
       users = fold (\<lambda>u m. m(userId u \<mapsto> u)) us Map.empty,
       notified = [] \<rparr>"

definition buildApprovalStages :: "userRole \<Rightarrow> approvalStage list" where
  "buildApprovalStages requesterRole =
     (if requesterRole = Developer
      then [\<lparr> level = 1, stage_role = Developer, required = True, timeout = 30 * 60 * 1000,
              approvedBy = None, approvedAt = None \<rparr>]
      else [])
     @ [\<lparr> level = 2, stage_role = Admin, required = True, timeout = 60 * 60 * 1000,
          approvedBy = None, approvedAt = None \<rparr>]
     @ [\<lparr> level = 3, stage_role = Superadmin, required = False, timeout = 2 * 60 * 60 * 1000,
          approvedBy = None, approvedAt = None \<rparr>]"

definition createWorkflow ::
  "string \<Rightarrow> string \<Rightarrow> approvalEngine \<Rightarrow> (engineError + approvalWorkflow) \<times> approvalEngine" where
  "createWorkflow tid requesterId s =
     (case users s requesterId of
        None \<Rightarrow> (Inl UnknownUser, s)
      | Some requester \<Rightarrow>
          (let sts = buildApprovalStages (role requester);
               workflow = \<lparr> taskId = tid, stages = sts, currentStage = 0,
                            requiredApprovals = length (filter required sts),
                            wf_status = Pending \<rparr>
           in (Inr workflow, s\<lparr> workflows := (workflows s)(tid \<mapsto> workflow) \<rparr>)))"

definition canApprove :: "user \<Rightarrow> approvalStage \<Rightarrow> bool" where
  "canApprove u stage =
     (if role u = Superadmin then True
      else if role u = Admin \<and> (stage_role stage = Admin \<or> stage_role stage = Developer) then True
      else if role u = Developer \<and> stage_role stage = Developer then True
      else False)"

text \<open>
  \<open>advanceWorkflow\<close> calls itself after stepping over a stage that is not required;
  the distance of \<open>currentStage\<close> to the end of \<open>stages\<close> shrinks with each call.
  It returns the promised boolean, the workflow as mutated, and the events emitted.
\<close>

function advanceWorkflow :: "approvalWorkflow \<Rightarrow> bool \<times> approvalWorkflow \<times> engineEvent list" where
  "advanceWorkflow workflow =
     (if currentStage workflow + 1 \<ge> length (stages workflow)
      then (True, workflow\<lparr> wf_status := Approved \<rparr>,
            [WorkflowApproved (workflow\<lparr> wf_status := Approved \<rparr>)])
      else if \<not> required (stages workflow ! (currentStage workflow + 1))
      then advanceWorkflow (workflow\<lparr> currentStage := currentStage workflow + 1 \<rparr>)
      else (False, workflow\<lparr> currentStage := currentStage workflow + 1 \<rparr>,
            [StageChanged (workflow\<lparr> currentStage := currentStage workflow + 1 \<rparr>)
                          (stages workflow ! (currentStage workflow + 1))]))"
  by pat_completeness auto
termination
  by (relation "measure (\<lambda>w. length (stages w) - currentStage w)") auto

declare advanceWorkflow.simps [simp del]

text \<open>
  \<open>approve\<close> is \<open>async\<close>: a \<open>throw\<close> rejects the returned promise, which is the
  \<open>Inl\<close> result here. \<open>workflow.stages[workflow.currentStage]\<close> is \<open>undefined\<close>
  past the end of the array, which the code turns into an error. The stage object is
  mutated in place, so the workflow stored under the key sees the approval.
\<close>

definition approve ::
  "string \<Rightarrow> string \<Rightarrow> int \<Rightarrow> approvalEngine \<Rightarrow> (engineError + bool) \<times> approvalEngine" where
  "approve tid uid now s =
     (case workflows s tid of
        None \<Rightarrow> (Inl UnknownWorkflow, s)
      | Some workflow \<Rightarrow>
          (case users s uid of
             None \<Rightarrow> (Inl UnknownUser, s)
           | Some u \<Rightarrow>
               if currentStage workflow \<ge> length (stages workflow) then (Inl NoCurrentStage, s)
               else if \<not> canApprove u (stages workflow ! currentStage workflow) then (Inl Forbidden, s)
               else
                 (let stage' = (stages workflow ! currentStage workflow)
                                 \<lparr> approvedBy := Some uid, approvedAt := Some now \<rparr>;
                      workflow' = workflow\<lparr> stages := (stages workflow)[currentStage workflow := stage'] \<rparr>;
                      (done, workflow'', evs) = advanceWorkflow workflow'
                  in (Inr done,
                      s\<lparr> workflows := (workflows s)(tid \<mapsto> workflow''),
                         notified := notified s @ StageApproved workflow' stage' u # evs \<rparr>))))"

definition reject ::
  "string \<Rightarrow> string \<Rightarrow> string \<Rightarrow> approvalEngine \<Rightarrow> (engineError + unit) \<times> approvalEngine" where
  "reject tid uid reason s =
     (case workflows s tid of
        None \<Rightarrow> (Inl UnknownWorkflow, s)
      | Some workflow \<Rightarrow>
          (case users s uid of
             None \<Rightarrow> (Inl UnknownUser, s)
           | Some u \<Rightarrow>
               (let workflow' = workflow\<lparr> wf_status := Rejected \<rparr>
                in (Inr (),
                    s\<lparr> workflows := (workflows s)(tid \<mapsto> workflow'),
                       notified := notified s @ [WorkflowRejected workflow' u reason] \<rparr>))))"

definition emergencyApprove ::
  "string \<Rightarrow> string \<Rightarrow> approvalEngine \<Rightarrow> (engineError + bool) \<times> approvalEngine" where
  "emergencyApprove tid uid s =
     (case workflows s tid of
        None \<Rightarrow> (Inl UnknownWorkflow, s)
      | Some workflow \<Rightarrow>
          (case users s uid of
             None \<Rightarrow> (Inl Forbidden, s)
           | Some u \<Rightarrow>
               if role u \<noteq> Superadmin then (Inl Forbidden, s)
               else
                 (let workflow' = workflow\<lparr> wf_status := Approved \<rparr>
                  in (Inr True,
                      s\<lparr> workflows := (workflows s)(tid \<mapsto> workflow'),
                         notified := notified s @ [EmergencyApproval workflow' u] \<rparr>))))"

definition addUser :: "user \<Rightarrow> approvalEngine \<Rightarrow> approvalEngine" where
  "addUser u s = s\<lparr> users := (users s)(userId u \<mapsto> u) \<rparr>"

definition removeUser :: "string \<Rightarrow> approvalEngine \<Rightarrow> approvalEngine" where
  "removeUser uid s = s\<lparr> users := (users s)(uid := None) \<rparr>"

definition cleanup :: "string \<Rightarrow> approvalEngine \<Rightarrow> approvalEngine" where
  "cleanup tid s = s\<lparr> workflows := (workflows s)(tid := None) \<rparr>"

section \<open>The task queue (queue/task-queue.ts)\<close>

text \<open>
  \<open>queue\<close> is the array. \<open>processing\<close> is a \<open>Map\<close> whose \<open>size\<close> is read,
  so it is an association list in insertion order: \<open>get\<close> is \<open>map_of\<close>,
  \<open>set\<close> is \<open>AList.update\<close> (replace in place, or append), \<open>delete\<close> is
  \<open>AList.delete\<close>, \<open>size\<close> is the length. \<open>resourceLocks\<close> is only read and
  written by key. \<open>maxConcurrent\<close> is the integer the caller configures. Task objects
  are held by value: the queue never holds one object twice as long as every submitted
  task carries an identifier that is not tracked at that moment. \<open>emitted\<close> records
  each \<open>this.emit(...)\<close> with the task as it is at that moment.
\<close>

datatype queueEvent =
    TaskAdded task
  | TaskStarted task
  | TaskCompleted task
  | TaskFailed task string

record taskQueue =
  queue :: "task list"
  processing :: "(string \<times> task) list"
  maxConcurrent :: int
  resourceLocks :: "string \<rightharpoonup> string"
  emitted :: "queueEvent list"

definition newTaskQueue :: "int \<Rightarrow> taskQueue" where
  "newTaskQueue mc =
     \<lparr> queue = [], processing = [], maxConcurrent = mc, resourceLocks = Map.empty, emitted = [] \<rparr>"

fun priorityWeight :: "taskPriority \<Rightarrow> int" where
  "priorityWeight Urgent = 4"
| "priorityWeight High = 3"
| "priorityWeight Medium = 2"
| "priorityWeight Low = 1"

text \<open>The comparator handed to \<open>Array.prototype.sort\<close>.\<close>

definition compareTasks :: "task \<Rightarrow> task \<Rightarrow> int" where
  "compareTasks a b =
     (let priorityDiff = priorityWeight (priority b) - priorityWeight (priority a)
      in if priorityDiff \<noteq> 0 then priorityDiff else createdAt a - createdAt b)"

text \<open>
  \<open>Array.prototype.sort\<close> is stable and the comparator is a total preorder, so the
  outcome is the one stable arrangement of the array, whatever algorithm the engine
  runs. Inserting from the right, each element in front of its equals, computes it.
\<close>

fun insertTask :: "task \<Rightarrow> task list \<Rightarrow> task list" where
  "insertTask a [] = [a]"
| "insertTask a (b # bs) = (if compareTasks a b \<le> 0 then a # b # bs else b # insertTask a bs)"

definition sortTasks :: "task list \<Rightarrow> task list" where
  "sortTasks ts = foldr insertTask ts []"

definition sortQueue :: "taskQueue \<Rightarrow> taskQueue" where
  "sortQueue s = s\<lparr> queue := sortTasks (queue s) \<rparr>"

text \<open>
  \<open>[...new Set(conflicts)]\<close> keeps the first occurrence of each element, in order.
\<close>

definition newSet :: "'a list \<Rightarrow> 'a list" where
  "newSet xs = fold (\<lambda>x acc. if x \<in> set acc then acc else acc @ [x]) xs []"

text \<open>
  The test \<open>lockingTaskId && lockingTaskId !== task.id\<close> is on the truthiness of a
  string: \<open>undefined\<close> (no lock) and the empty string both fail it.
\<close>

definition isConflict :: "taskQueue \<Rightarrow> task \<Rightarrow> string \<Rightarrow> bool" where
  "isConflict s t resource =
     (case resourceLocks s resource of
        None \<Rightarrow> False
      | Some lockingTaskId \<Rightarrow> lockingTaskId \<noteq> [] \<and> lockingTaskId \<noteq> task_id t)"

definition checkResourceConflicts :: "taskQueue \<Rightarrow> task \<Rightarrow> string list" where
  "checkResourceConflicts s t =
     newSet (map (\<lambda>resource. the (resourceLocks s resource))
                 (filter (isConflict s t) (resources t)))"

text \<open>
  \<open>this.processing.get(depId) || this.queue.find(...)\<close>: a task object is truthy, so
  the queue is searched exactly when the map has no entry.
\<close>

definition findDep :: "taskQueue \<Rightarrow> string \<Rightarrow> task option" where
  "findDep s depId =
     (case map_of (processing s) depId of
        Some dep \<Rightarrow> Some dep
      | None \<Rightarrow> find (\<lambda>t. task_id t = depId) (queue s))"

definition canProcessTask :: "taskQueue \<Rightarrow> task \<Rightarrow> bool" where
  "canProcessTask s t =
     (let incompleteDeps =
            filter (\<lambda>depId. case findDep s depId of
                               None \<Rightarrow> False
                             | Some dep \<Rightarrow> status dep \<noteq> Completed)
                   (dependencies t)
      in if length incompleteDeps > 0 then False
         else \<not> list_ex (isConflict s t) (resources t))"

definition lockResources :: "task \<Rightarrow> (string \<rightharpoonup> string) \<Rightarrow> (string \<rightharpoonup> string)" where
  "lockResources t locks = fold (\<lambda>resource m. m(resource \<mapsto> task_id t)) (resources t) locks"

definition unlockResources :: "task \<Rightarrow> (string \<rightharpoonup> string) \<Rightarrow> (string \<rightharpoonup> string)" where
  "unlockResources t locks =
     fold (\<lambda>resource m. if m resource = Some (task_id t) then m(resource := None) else m)
          (resources t) locks"

text \<open>
  \<open>processNext\<close> is \<open>async\<close> but awaits nothing: its body runs to the end inside
  the call that invokes it.
\<close>

definition processNext :: "int \<Rightarrow> taskQueue \<Rightarrow> taskQueue" where
  "processNext now s =
     (if int (length (processing s)) \<ge> maxConcurrent s then s
      else
        (case find (canProcessTask s) (queue s) of
           None \<Rightarrow> s
         | Some nextTask \<Rightarrow>
             (let started = nextTask\<lparr> status := Processing, startedAt := Some now \<rparr>
              in s\<lparr> queue := filter (\<lambda>t. task_id t \<noteq> task_id nextTask) (queue s),
                    resourceLocks := lockResources nextTask (resourceLocks s),
                    processing := AList.update (task_id nextTask) started (processing s),
                    emitted := emitted s @ [TaskStarted started] \<rparr>)))"

definition addTask :: "task \<Rightarrow> int \<Rightarrow> taskQueue \<Rightarrow> taskQueue" where
  "addTask t now s =
     (let conflicts = checkResourceConflicts s t;
          t' = (if length conflicts > 0 then t\<lparr> dependencies := dependencies t @ conflicts \<rparr> else t);
          s' = sortQueue (s\<lparr> queue := queue s @ [t'] \<rparr>)
      in processNext now (s'\<lparr> emitted := emitted s' @ [TaskAdded t'] \<rparr>))"

text \<open>
  \<open>completeTask\<close> reads the clock for \<open>completedAt\<close> (\<open>now\<close>); the admission it
  triggers reads it again (\<open>now'\<close>). The \<open>status\<close> parameter is any \<open>TaskStatus\<close>
  and defaults to \<open>'completed'\<close>.
\<close>

definition completeTask :: "string \<Rightarrow> taskStatus \<Rightarrow> int \<Rightarrow> int \<Rightarrow> taskQueue \<Rightarrow> taskQueue" where
  "completeTask tid st now now' s =
     (case map_of (processing s) tid of
        None \<Rightarrow> s
      | Some t \<Rightarrow>
          (let t' = t\<lparr> status := st, completedAt := Some now \<rparr>
           in processNext now'
                (s\<lparr> resourceLocks := unlockResources t' (resourceLocks s),
                   processing := AList.delete tid (processing s),
                   emitted := emitted s @ [TaskCompleted t'] \<rparr>)))"

definition failTask :: "string \<Rightarrow> string \<Rightarrow> int \<Rightarrow> int \<Rightarrow> taskQueue \<Rightarrow> taskQueue" where
  "failTask tid err now now' s =
     (case map_of (processing s) tid of
        None \<Rightarrow> s
      | Some t \<Rightarrow>
          (let t' = t\<lparr> status := Failed, completedAt := Some now \<rparr>
           in processNext now'
                (s\<lparr> resourceLocks := unlockResources t' (resourceLocks s),
                   processing := AList.delete tid (processing s),
                   emitted := emitted s @ [TaskFailed t' err] \<rparr>)))"

subsection \<open>Histories of calls\<close>

text \<open>
  A reachable state of the queue is what a sequence of calls of its public methods
  leaves behind, starting from the constructor.
\<close>

datatype queueCall =
    AddTask task int
  | CompleteTask string taskStatus int int
  | FailTask string string int int
  | ProcessNext int

fun call :: "taskQueue \<Rightarrow> queueCall \<Rightarrow> taskQueue" where
  "call s (AddTask t now) = addTask t now s"
| "call s (CompleteTask tid st now now') = completeTask tid st now now' s"
| "call s (FailTask tid err now now') = failTask tid err now now' s"
| "call s (ProcessNext now) = processNext now s"

definition run :: "queueCall list \<Rightarrow> taskQueue \<Rightarrow> taskQueue" where
  "run calls s = foldl call s calls"

text \<open>
  The data model makes a task's \<open>id\<close> a unique identifier. \<open>freshIds s calls\<close> says
  that the history respects it: each submitted task has a non-empty identifier that
  the queue does not track at the moment of the call.
\<close>

definition trackedIds :: "taskQueue \<Rightarrow> string set" where
  "trackedIds s = fst ` set (processing s) \<union> task_id ` set (queue s)"

fun freshIds :: "taskQueue \<Rightarrow> queueCall list \<Rightarrow> bool" where
  "freshIds s [] = True"
| "freshIds s (AddTask t now # calls) =
     (task_id t \<noteq> [] \<and> task_id t \<notin> trackedIds s \<and> freshIds (addTask t now s) calls)"
| "freshIds s (c # calls) = freshIds (call s c) calls"

subsection \<open>The admission test and the ordering policy, as specified\<close>

text \<open>
  (a) every dependency id that is still tracked, in flight or in the backlog, has status
  completed; an id that is not tracked asks nothing. (b) no resource of the task is
  locked by a different task.
\<close>

definition dependenciesSatisfied :: "taskQueue \<Rightarrow> task \<Rightarrow> bool" where
  "dependenciesSatisfied s t =
     list_all (\<lambda>depId.
         (case map_of (processing s) depId of None \<Rightarrow> True | Some dep \<Rightarrow> status dep = Completed)
         \<and> list_all (\<lambda>dep. task_id dep = depId \<longrightarrow> status dep = Completed) (queue s))
       (dependencies t)"

definition resourcesUnlocked :: "taskQueue \<Rightarrow> task \<Rightarrow> bool" where
  "resourcesUnlocked s t =
     list_all (\<lambda>resource. case resourceLocks s resource of
                             None \<Rightarrow> True
                           | Some holder \<Rightarrow> holder = task_id t)
              (resources t)"

definition admissionTest :: "taskQueue \<Rightarrow> task \<Rightarrow> bool" where
  "admissionTest s t = (dependenciesSatisfied s t \<and> resourcesUnlocked s t)"

text \<open>
  Priority descending by weight, ties broken by \<open>createdAt\<close> ascending.
\<close>

definition ordered :: "task \<Rightarrow> task \<Rightarrow> bool" where
  "ordered a b =
     (priorityWeight (priority a) > priorityWeight (priority b)
      \<or> (priorityWeight (priority a) = priorityWeight (priority b) \<and> createdAt a \<le> createdAt b))"

subsection \<open>Invariants of the queue\<close>

definition consistent :: "taskQueue \<Rightarrow> bool" where
  "consistent s \<longleftrightarrow>
     distinct (map fst (processing s))
     \<and> distinct (map task_id (queue s))
     \<and> (\<forall>(k, t)\<in>set (processing s).
           task_id t = k \<and> k \<noteq> [] \<and> (\<forall>r\<in>set (resources t). resourceLocks s r = Some k))
     \<and> (\<forall>r k. resourceLocks s r = Some k \<longrightarrow>
           (\<exists>t. (k, t) \<in> set (processing s) \<and> r \<in> set (resources t)))
     \<and> (\<forall>t\<in>set (queue s). task_id t \<noteq> [] \<and> task_id t \<notin> fst ` set (processing s))"

definition bounded :: "taskQueue \<Rightarrow> bool" where
  "bounded s \<longleftrightarrow>
     distinct (map fst (processing s)) \<and> int (length (processing s)) \<le> maxConcurrent s"

definition inFlightProcessing :: "taskQueue \<Rightarrow> bool" where
  "inFlightProcessing s \<longleftrightarrow> (\<forall>(k, t)\<in>set (processing s). status t = Processing)"

section \<open>Example data\<close>

text \<open>A stage as \<open>buildApprovalStages\<close> creates it: nobody has approved it yet.\<close>

definition freshStage :: "nat \<Rightarrow> userRole \<Rightarrow> bool \<Rightarrow> nat \<Rightarrow> approvalStage" where
  "freshStage lvl r req minutes =
     \<lparr> level = lvl, stage_role = r, required = req, timeout = minutes * 60000,
       approvedBy = None, approvedAt = None \<rparr>"

definition devUser :: user where
  "devUser = \<lparr> userId = ''dev1'', user_name = ''Dee'', role = Developer, permissions = [] \<rparr>"

definition adminUser :: user where
  "adminUser = \<lparr> userId = ''adm1'', user_name = ''Ada'', role = Admin, permissions = [] \<rparr>"

definition rootUser :: user where
  "rootUser = \<lparr> userId = ''root'', user_name = ''Rae'', role = Superadmin, permissions = [''all''] \<rparr>"

definition demoEngine :: approvalEngine where
  "demoEngine = newEngine [devUser, adminUser, rootUser]"

definition pendingDemo :: approvalEngine where
  "pendingDemo = snd (createWorkflow ''t1'' ''dev1'' demoEngine)"

definition stageTwoDemo :: approvalEngine where
  "stageTwoDemo = snd (approve ''t1'' ''dev1'' 10 pendingDemo)"

definition approvedDemo :: approvalEngine where
  "approvedDemo = snd (emergencyApprove ''t1'' ''root'' pendingDemo)"

definition rejectedDemo :: approvalEngine where
  "rejectedDemo = snd (reject ''t1'' ''dev1'' ''no'' approvedDemo)"

definition taskA :: task where
  "taskA = \<lparr> task_id = ''a'', priority = Low, dependencies = [], resources = [''web''],
             status = Queued, createdAt = 1, startedAt = None, completedAt = None \<rparr>"

definition taskB :: task where
  "taskB = \<lparr> task_id = ''b'', priority = Urgent, dependencies = [''a''], resources = [''web''],
             status = Queued, createdAt = 2, startedAt = None, completedAt = None \<rparr>"

definition taskC :: task where
  "taskC = \<lparr> task_id = ''c'', priority = Medium, dependencies = [], resources = [''db''],
             status = Queued, createdAt = 3, startedAt = None, completedAt = None \<rparr>"

definition oneDemo :: taskQueue where
  "oneDemo = addTask taskA 1 (newTaskQueue 2)"

definition twoDemo :: taskQueue where
  "twoDemo = addTask taskB 2 oneDemo"

definition waitingDemo :: taskQueue where
  "waitingDemo = twoDemo\<lparr> queue := queue twoDemo @ [taskC] \<rparr>"

section \<open>Properties of the approval engine\<close>

subsection \<open>Advancing a workflow\<close>

lemma advanceWorkflow_end:
  "length (stages w) \<le> currentStage w + 1 \<Longrightarrow>
   advanceWorkflow w = (True, w\<lparr> wf_status := Approved \<rparr>, [WorkflowApproved (w\<lparr> wf_status := Approved \<rparr>)])"
  by (subst advanceWorkflow.simps) simp

lemma advanceWorkflow_skip:
  "currentStage w + 1 < length (stages w) \<Longrightarrow> \<not> required (stages w ! (currentStage w + 1)) \<Longrightarrow>
   advanceWorkflow w = advanceWorkflow (w\<lparr> currentStage := currentStage w + 1 \<rparr>)"
  by (subst advanceWorkflow.simps) simp

lemma advanceWorkflow_stop:
  "currentStage w + 1 < length (stages w) \<Longrightarrow> required (stages w ! (currentStage w + 1)) \<Longrightarrow>
   advanceWorkflow w = (False, w\<lparr> currentStage := currentStage w + 1 \<rparr>,
      [StageChanged (w\<lparr> currentStage := currentStage w + 1 \<rparr>) (stages w ! (currentStage w + 1))])"
  by (subst advanceWorkflow.simps) simp

lemma advanceWorkflow_frame:
  "advanceWorkflow w = (b, w', evs) \<Longrightarrow>
     stages w' = stages w \<and> taskId w' = taskId w \<and> requiredApprovals w' = requiredApprovals w
     \<and> (wf_status w' = wf_status w \<or> wf_status w' = Approved)
     \<and> (b \<longrightarrow> wf_status w' = Approved) \<and> (\<not> b \<longrightarrow> wf_status w' = wf_status w)"
proof (induction w arbitrary: b w' evs rule: advanceWorkflow.induct)
  case (1 w)
  show ?case
  proof (cases "length (stages w) \<le> currentStage w + 1")
    case True
    with "1.prems" show ?thesis by (auto simp: advanceWorkflow_end)
  next
    case False
    show ?thesis
    proof (cases "required (stages w ! (currentStage w + 1))")
      case True
      with False "1.prems" show ?thesis by (auto simp: advanceWorkflow_stop)
    next
      case nr: False
      from False nr "1.prems"
      have "advanceWorkflow (w\<lparr> currentStage := currentStage w + 1 \<rparr>) = (b, w', evs)"
        by (simp add: advanceWorkflow_skip)
      from "1.IH"[OF False _ this] nr show ?thesis by simp
    qed
  qed
qed

subsection \<open>Creating a workflow\<close>

text \<open>
  C6. For every registered requester, \<open>createWorkflow\<close> builds the stages by the
  composition rule: a developer requester gets three stages (required developer, 30
  minutes; required admin, 60 minutes; optional superadmin, 120 minutes), an admin or
  superadmin requester gets the last two. The workflow starts at \<open>currentStage\<close> 0
  with status pending, \<open>requiredApprovals\<close> is the number of required stages (2 for
  a developer, 1 otherwise), and it is stored under the task id.
\<close>

theorem createWorkflow_composition:
  assumes "users s requesterId = Some requester"
  shows "\<exists>wf. createWorkflow tid requesterId s = (Inr wf, s\<lparr> workflows := (workflows s)(tid \<mapsto> wf) \<rparr>)
           \<and> taskId wf = tid \<and> currentStage wf = 0 \<and> wf_status wf = Pending
           \<and> requiredApprovals wf = length (filter required (stages wf))
           \<and> (role requester = Developer \<longrightarrow>
                stages wf = [freshStage 1 Developer True 30, freshStage 2 Admin True 60,
                             freshStage 3 Superadmin False 120]
                \<and> requiredApprovals wf = 2)
           \<and> (role requester \<noteq> Developer \<longrightarrow>
                stages wf = [freshStage 2 Admin True 60, freshStage 3 Superadmin False 120]
                \<and> requiredApprovals wf = 1)"
  using assms by (simp add: createWorkflow_def buildApprovalStages_def freshStage_def Let_def)

lemma users_demoEngine:
  "users demoEngine = [''dev1'' \<mapsto> devUser, ''adm1'' \<mapsto> adminUser, ''root'' \<mapsto> rootUser]"
  by (simp add: demoEngine_def newEngine_def devUser_def adminUser_def rootUser_def)

theorem createWorkflow_composition_witness:
  "users demoEngine ''dev1'' = Some devUser
   \<and> map stage_role (stages (the (workflows (snd (createWorkflow ''t1'' ''dev1'' demoEngine)) ''t1'')))
       = [Developer, Admin, Superadmin]
   \<and> users demoEngine ''adm1'' = Some adminUser
   \<and> map stage_role (stages (the (workflows (snd (createWorkflow ''t2'' ''adm1'' demoEngine)) ''t2'')))
       = [Admin, Superadmin]"
proof -
  have u: "users demoEngine ''dev1'' = Some devUser" "users demoEngine ''adm1'' = Some adminUser"
    by (simp_all add: users_demoEngine)
  have r: "role devUser = Developer" "role adminUser \<noteq> Developer"
    by (simp_all add: devUser_def adminUser_def)
  from createWorkflow_composition[OF u(1), of "''t1''"]
       createWorkflow_composition[OF u(2), of "''t2''"] r u
  show ?thesis by (auto simp: freshStage_def)
qed

subsection \<open>Approving stage by stage\<close>

lemma canApprove_cases:
  "canApprove u st \<longleftrightarrow>
     role u = Superadmin \<or> (role u = Admin \<and> stage_role st \<noteq> Superadmin)
     \<or> (role u = Developer \<and> stage_role st = Developer)"
  by (cases "role u"; cases "stage_role st") (simp_all add: canApprove_def)

text \<open>
  C5. For a workflow created for a developer requester, an approval of the developer
  stage by a user who may approve it, followed by an approval of the admin stage by a
  user who may approve that, leaves the workflow approved: the first call returns
  false, the second returns true, and the optional superadmin stage is stepped over
  without an approval.
\<close>

theorem developer_workflow_approved_at_admin:
  assumes req: "users s requesterId = Some requester" "role requester = Developer"
    and a1: "users s u1 = Some a1" "canApprove a1 (freshStage 1 Developer True 30)"
    and a2: "users s u2 = Some a2" "canApprove a2 (freshStage 2 Admin True 60)"
  shows "\<exists>s1 s2 s3 wf.
           s1 = snd (createWorkflow tid requesterId s)
           \<and> approve tid u1 n1 s1 = (Inr False, s2)
           \<and> approve tid u2 n2 s2 = (Inr True, s3)
           \<and> workflows s3 tid = Some wf \<and> wf_status wf = Approved \<and> currentStage wf = 2
           \<and> map approvedBy (stages wf) = [Some u1, Some u2, None]"
proof -
  let ?w0 = "\<lparr> taskId = tid,
               stages = [freshStage 1 Developer True 30, freshStage 2 Admin True 60,
                         freshStage 3 Superadmin False 120],
               currentStage = 0, requiredApprovals = 2, wf_status = Pending \<rparr>"
  let ?s1 = "snd (createWorkflow tid requesterId s)"
  from req have s1: "?s1 = s\<lparr> workflows := (workflows s)(tid \<mapsto> ?w0) \<rparr>"
    by (simp add: createWorkflow_def buildApprovalStages_def freshStage_def Let_def numeral_2_eq_2)
  let ?st1 = "(freshStage 1 Developer True 30)\<lparr> approvedBy := Some u1, approvedAt := Some n1 \<rparr>"
  let ?w1 = "?w0\<lparr> stages := [?st1, freshStage 2 Admin True 60, freshStage 3 Superadmin False 120] \<rparr>"
  have adv1: "advanceWorkflow ?w1 =
      (False, ?w1\<lparr> currentStage := 1 \<rparr>, [StageChanged (?w1\<lparr> currentStage := 1 \<rparr>) (freshStage 2 Admin True 60)])"
    by (subst advanceWorkflow_stop) (simp_all add: freshStage_def)
  let ?s2 = "?s1\<lparr> workflows := (workflows ?s1)(tid \<mapsto> ?w1\<lparr> currentStage := 1 \<rparr>),
                 notified := notified ?s1 @ [StageApproved ?w1 ?st1 a1,
                    StageChanged (?w1\<lparr> currentStage := 1 \<rparr>) (freshStage 2 Admin True 60)] \<rparr>"
  have ap1: "approve tid u1 n1 ?s1 = (Inr False, ?s2)"
    using a1 adv1 by (simp add: approve_def s1 Let_def)
  let ?st2 = "(freshStage 2 Admin True 60)\<lparr> approvedBy := Some u2, approvedAt := Some n2 \<rparr>"
  let ?w2 = "?w1\<lparr> currentStage := 1, stages := [?st1, ?st2, freshStage 3 Superadmin False 120] \<rparr>"
  have adv2: "advanceWorkflow ?w2 =
      (True, ?w2\<lparr> currentStage := 2, wf_status := Approved \<rparr>,
       [WorkflowApproved (?w2\<lparr> currentStage := 2, wf_status := Approved \<rparr>)])"
    by (subst advanceWorkflow_skip, simp add: freshStage_def, simp add: freshStage_def,
        subst advanceWorkflow_end, simp, simp)
  obtain s3 where ap2: "approve tid u2 n2 ?s2 = (Inr True, s3)"
    and w3: "workflows s3 tid = Some (?w2\<lparr> currentStage := 2, wf_status := Approved \<rparr>)"
    using a2 adv2 by (simp add: approve_def s1 Let_def)
  from ap1 ap2 w3 show ?thesis by (simp add: freshStage_def)
qed

theorem developer_workflow_approved_at_admin_witness:
  "approve ''t1'' ''dev1'' 10 pendingDemo = (Inr False, stageTwoDemo)
   \<and> fst (approve ''t1'' ''adm1'' 20 stageTwoDemo) = Inr True
   \<and> map_option wf_status (workflows (snd (approve ''t1'' ''adm1'' 20 stageTwoDemo)) ''t1'') = Some Approved"
proof -
  have u: "users demoEngine ''dev1'' = Some devUser" "users demoEngine ''adm1'' = Some adminUser"
    by (simp_all add: users_demoEngine)
  have r: "role devUser = Developer" by (simp add: devUser_def)
  have c1: "canApprove devUser (freshStage 1 Developer True 30)"
    by (simp add: canApprove_def devUser_def freshStage_def)
  have c2: "canApprove adminUser (freshStage 2 Admin True 60)"
    by (simp add: canApprove_def adminUser_def freshStage_def)
  from developer_workflow_approved_at_admin[OF u(1) r u(1) c1 u(2) c2, of "''t1''" 10 20]
  show ?thesis by (auto simp: pendingDemo_def stageTwoDemo_def)
qed

subsection \<open>Failed calls\<close>

text \<open>
  C8. Whenever \<open>approve\<close> or \<open>reject\<close> fails, the engine is left as it was: no
  stage, no \<open>currentStage\<close>, no status, no registry entry and no notification
  changes. An unknown workflow and an unknown user make both fail, and a user whose
  role cannot approve the current stage makes \<open>approve\<close> fail with \<open>Forbidden\<close>.
\<close>

theorem failed_approve_reject_unchanged:
  "(fst (approve tid uid now s) = Inl e \<longrightarrow> snd (approve tid uid now s) = s)
   \<and> (fst (reject tid uid reason s) = Inl e' \<longrightarrow> snd (reject tid uid reason s) = s)
   \<and> (workflows s tid = None \<longrightarrow>
         approve tid uid now s = (Inl UnknownWorkflow, s)
         \<and> reject tid uid reason s = (Inl UnknownWorkflow, s))
   \<and> (workflows s tid \<noteq> None \<and> users s uid = None \<longrightarrow>
         approve tid uid now s = (Inl UnknownUser, s)
         \<and> reject tid uid reason s = (Inl UnknownUser, s))
   \<and> (workflows s tid = Some w \<and> users s uid = Some u
        \<and> currentStage w < length (stages w) \<and> \<not> canApprove u (stages w ! currentStage w) \<longrightarrow>
         approve tid uid now s = (Inl Forbidden, s))"
  by (auto simp: approve_def reject_def Let_def split: option.splits prod.splits if_splits)

lemma users_pendingDemo: "users pendingDemo = users demoEngine"
  by (simp add: pendingDemo_def createWorkflow_def users_demoEngine Let_def)

lemma workflows_pendingDemo:
  "workflows pendingDemo =
     [''t1'' \<mapsto> \<lparr> taskId = ''t1'',
            stages = [freshStage 1 Developer True 30, freshStage 2 Admin True 60,
                      freshStage 3 Superadmin False 120],
            currentStage = 0, requiredApprovals = 2, wf_status = Pending \<rparr>]"
  by (simp add: pendingDemo_def createWorkflow_def buildApprovalStages_def users_demoEngine
      devUser_def Let_def freshStage_def numeral_2_eq_2)
    (simp add: demoEngine_def newEngine_def)

lemma workflows_stageTwoDemo:
  "workflows stageTwoDemo =
     [''t1'' \<mapsto> \<lparr> taskId = ''t1'',
            stages = [(freshStage 1 Developer True 30)\<lparr> approvedBy := Some ''dev1'', approvedAt := Some 10 \<rparr>,
                      freshStage 2 Admin True 60, freshStage 3 Superadmin False 120],
            currentStage = 1, requiredApprovals = 2, wf_status = Pending \<rparr>]"
  by (simp add: stageTwoDemo_def approve_def workflows_pendingDemo users_pendingDemo
      users_demoEngine devUser_def canApprove_def Let_def advanceWorkflow_stop freshStage_def)

lemma users_stageTwoDemo: "users stageTwoDemo = users demoEngine"
  by (simp add: stageTwoDemo_def approve_def users_pendingDemo Let_def
      split: option.splits prod.splits)

theorem failed_approve_reject_unchanged_witness:
  "approve ''t1'' ''dev1'' 20 stageTwoDemo = (Inl Forbidden, stageTwoDemo)
   \<and> approve ''t2'' ''dev1'' 20 stageTwoDemo = (Inl UnknownWorkflow, stageTwoDemo)
   \<and> reject ''t1'' ''nobody'' ''why'' stageTwoDemo = (Inl UnknownUser, stageTwoDemo)"
proof -
  obtain wf where w1: "workflows stageTwoDemo ''t1'' = Some wf"
    and cs: "currentStage wf < length (stages wf)"
    and st: "stages wf ! currentStage wf = freshStage 2 Admin True 60"
    by (simp add: workflows_stageTwoDemo)
  have w2: "workflows stageTwoDemo ''t2'' = None"
    by (simp add: workflows_stageTwoDemo)
  have u: "users stageTwoDemo ''dev1'' = Some devUser" "users stageTwoDemo ''nobody'' = None"
    by (simp_all add: users_stageTwoDemo users_demoEngine)
  have c: "\<not> canApprove devUser (stages wf ! currentStage wf)"
    by (simp add: st canApprove_def devUser_def freshStage_def)
  note inst = failed_approve_reject_unchanged[where s=stageTwoDemo and now=20 and reason="''why''"
      and w=wf and u=devUser and e=Forbidden and e'=Forbidden]
  have "approve ''t1'' ''dev1'' 20 stageTwoDemo = (Inl Forbidden, stageTwoDemo)"
    using inst[where tid="''t1''" and uid="''dev1''"] w1 cs u(1) c by blast
  moreover have "approve ''t2'' ''dev1'' 20 stageTwoDemo = (Inl UnknownWorkflow, stageTwoDemo)"
    using inst[where tid="''t2''" and uid="''dev1''"] w2 by blast
  moreover have "reject ''t1'' ''nobody'' ''why'' stageTwoDemo = (Inl UnknownUser, stageTwoDemo)"
    using inst[where tid="''t1''" and uid="''nobody''"] w1 u(2) by auto
  ultimately show ?thesis by simp
qed

subsection \<open>The emergency bypass\<close>

text \<open>
  C10. For an existing workflow and a registered superadmin, \<open>emergencyApprove\<close>
  changes the status field of that workflow to approved and nothing else: its stages
  with their approvals, \<open>currentStage\<close>, \<open>requiredApprovals\<close> and \<open>taskId\<close>,
  every other workflow and the user registry stay as they are.
\<close>

theorem emergencyApprove_frame:
  assumes "workflows s tid = Some w" and "users s uid = Some u" and "role u = Superadmin"
  shows "\<exists>s' w'. emergencyApprove tid uid s = (Inr True, s')
           \<and> workflows s' tid = Some w' \<and> w' = w\<lparr> wf_status := Approved \<rparr>
           \<and> stages w' = stages w \<and> currentStage w' = currentStage w
           \<and> requiredApprovals w' = requiredApprovals w \<and> taskId w' = taskId w
           \<and> (\<forall>other. other \<noteq> tid \<longrightarrow> workflows s' other = workflows s other)
           \<and> users s' = users s
           \<and> notified s' = notified s @ [EmergencyApproval w' u]"
  using assms by (simp add: emergencyApprove_def Let_def)

theorem emergencyApprove_frame_witness:
  "map_option wf_status (workflows (snd (emergencyApprove ''t1'' ''root'' stageTwoDemo)) ''t1'') = Some Approved
   \<and> map_option currentStage (workflows (snd (emergencyApprove ''t1'' ''root'' stageTwoDemo)) ''t1'') = Some 1
   \<and> users (snd (emergencyApprove ''t1'' ''root'' stageTwoDemo)) = users stageTwoDemo"
proof -
  have u: "users stageTwoDemo ''root'' = Some rootUser"
    by (simp add: users_stageTwoDemo users_demoEngine)
  have r: "role rootUser = Superadmin" by (simp add: rootUser_def)
  obtain wf where w: "workflows stageTwoDemo ''t1'' = Some wf" and cs: "currentStage wf = 1"
    by (simp add: workflows_stageTwoDemo)
  from emergencyApprove_frame[OF w u r] cs
  show ?thesis by auto
qed

subsection \<open>Approved and rejected workflows\<close>

lemma approve_keeps_approved:
  assumes "workflows s tid = Some w" "wf_status w = Approved"
  shows "\<exists>w'. workflows (snd (approve t' uid now s)) tid = Some w' \<and> wf_status w' = Approved"
proof (cases "fst (approve t' uid now s)")
  case (Inl e)
  then have "snd (approve t' uid now s) = s"
    by (auto simp: approve_def Let_def split: option.splits prod.splits if_splits)
  with assms show ?thesis by simp
next
  case (Inr b)
  show ?thesis
  proof (cases "t' = tid")
    case False
    with assms show ?thesis
      by (auto simp: approve_def Let_def split: option.splits prod.splits if_splits)
  next
    case True
    from Inr True assms obtain u where u: "users s uid = Some u"
      and cs: "currentStage w < length (stages w)"
      by (auto simp: approve_def Let_def split: option.splits prod.splits if_splits)
    let ?w1 = "w\<lparr> stages := (stages w)[currentStage w :=
                 (stages w ! currentStage w)\<lparr> approvedBy := Some uid, approvedAt := Some now \<rparr>] \<rparr>"
    obtain b' w2 evs where adv: "advanceWorkflow ?w1 = (b', w2, evs)"
      by (cases "advanceWorkflow ?w1") auto
    from advanceWorkflow_frame[OF adv] assms(2) have "wf_status w2 = Approved" by auto
    moreover from Inr True assms u cs adv have "workflows (snd (approve t' uid now s)) tid = Some w2"
      by (auto simp: approve_def Let_def split: option.splits prod.splits if_splits)
    ultimately show ?thesis by simp
  qed
qed

lemma workflows_approvedDemo:
  "workflows approvedDemo =
     [''t1'' \<mapsto> \<lparr> taskId = ''t1'',
            stages = [freshStage 1 Developer True 30, freshStage 2 Admin True 60,
                      freshStage 3 Superadmin False 120],
            currentStage = 0, requiredApprovals = 2, wf_status = Approved \<rparr>]"
  by (simp add: approvedDemo_def emergencyApprove_def workflows_pendingDemo users_pendingDemo
      users_demoEngine rootUser_def Let_def)

lemma users_approvedDemo: "users approvedDemo = users demoEngine"
  by (simp add: approvedDemo_def emergencyApprove_def users_pendingDemo Let_def
      split: option.splits)

lemma reject_approvedDemo: "reject ''t1'' ''dev1'' ''no'' approvedDemo = (Inr (), rejectedDemo)"
  by (simp add: rejectedDemo_def reject_def workflows_approvedDemo users_approvedDemo
      users_demoEngine Let_def)

lemma workflows_rejectedDemo:
  "workflows rejectedDemo =
     [''t1'' \<mapsto> \<lparr> taskId = ''t1'',
            stages = [freshStage 1 Developer True 30, freshStage 2 Admin True 60,
                      freshStage 3 Superadmin False 120],
            currentStage = 0, requiredApprovals = 2, wf_status = Rejected \<rparr>]"
  by (simp add: rejectedDemo_def reject_def workflows_approvedDemo users_approvedDemo
      users_demoEngine Let_def)

lemma users_rejectedDemo: "users rejectedDemo = users demoEngine"
  by (simp add: rejectedDemo_def reject_def users_approvedDemo Let_def split: option.splits)

text \<open>
  C3, as stated, fails: no operation looks at the status before it writes it. A
  registered developer rejects an approved workflow, which is then rejected; a
  superadmin's emergency approval of that rejected workflow makes it approved again.
\<close>

theorem terminal_status_counterexample:
  "map_option wf_status (workflows approvedDemo ''t1'') = Some Approved
   \<and> users approvedDemo ''dev1'' = Some devUser
   \<and> reject ''t1'' ''dev1'' ''no'' approvedDemo = (Inr (), rejectedDemo)
   \<and> map_option wf_status (workflows rejectedDemo ''t1'') = Some Rejected
   \<and> users rejectedDemo ''root'' = Some rootUser
   \<and> fst (emergencyApprove ''t1'' ''root'' rejectedDemo) = Inr True
   \<and> map_option wf_status (workflows (snd (emergencyApprove ''t1'' ''root'' rejectedDemo)) ''t1'')
       = Some Approved"
  by (simp add: workflows_approvedDemo users_approvedDemo reject_approvedDemo
      workflows_rejectedDemo users_rejectedDemo users_demoEngine emergencyApprove_def
      rootUser_def Let_def)

text \<open>
  C3, amended. \<open>approve\<close> and \<open>emergencyApprove\<close>, on any workflow and by any
  user, leave an approved workflow approved, and \<open>reject\<close> leaves a rejected workflow
  rejected. A \<open>reject\<close> by a registered user makes the workflow rejected and an
  \<open>emergencyApprove\<close> by a superadmin makes it approved, whatever its status was.
\<close>

theorem terminal_status_amended:
  assumes "workflows s tid = Some w"
  shows "(wf_status w = Approved \<longrightarrow>
            map_option wf_status (workflows (snd (approve t' uid now s)) tid) = Some Approved
            \<and> map_option wf_status (workflows (snd (emergencyApprove t' uid s)) tid) = Some Approved)
       \<and> (wf_status w = Rejected \<longrightarrow>
            map_option wf_status (workflows (snd (reject t' uid reason s)) tid) = Some Rejected)
       \<and> (users s uid \<noteq> None \<longrightarrow>
            map_option wf_status (workflows (snd (reject tid uid reason s)) tid) = Some Rejected)
       \<and> (map_option role (users s uid) = Some Superadmin \<longrightarrow>
            map_option wf_status (workflows (snd (emergencyApprove tid uid s)) tid) = Some Approved)"
proof -
  have "wf_status w = Approved \<Longrightarrow>
          map_option wf_status (workflows (snd (approve t' uid now s)) tid) = Some Approved"
    using approve_keeps_approved[OF assms, of t' uid now] by auto
  moreover have "wf_status w = Approved \<Longrightarrow>
          map_option wf_status (workflows (snd (emergencyApprove t' uid s)) tid) = Some Approved"
    using assms by (auto simp: emergencyApprove_def Let_def split: option.splits)
  moreover have "wf_status w = Rejected \<Longrightarrow>
          map_option wf_status (workflows (snd (reject t' uid reason s)) tid) = Some Rejected"
    using assms by (auto simp: reject_def Let_def split: option.splits)
  moreover have "users s uid \<noteq> None \<Longrightarrow>
          map_option wf_status (workflows (snd (reject tid uid reason s)) tid) = Some Rejected"
    using assms by (auto simp: reject_def Let_def split: option.splits)
  moreover have "map_option role (users s uid) = Some Superadmin \<Longrightarrow>
          map_option wf_status (workflows (snd (emergencyApprove tid uid s)) tid) = Some Approved"
    using assms by (auto simp: emergencyApprove_def Let_def split: option.splits)
  ultimately show ?thesis by blast
qed

theorem terminal_status_amended_witness:
  "map_option wf_status (workflows (snd (approve ''t1'' ''root'' 30 approvedDemo)) ''t1'') = Some Approved
   \<and> map_option wf_status (workflows (snd (reject ''t1'' ''adm1'' ''again'' rejectedDemo)) ''t1'') = Some Rejected"
proof -
  obtain wa where a: "workflows approvedDemo ''t1'' = Some wa" and sa: "wf_status wa = Approved"
    by (simp add: workflows_approvedDemo)
  obtain wr where r: "workflows rejectedDemo ''t1'' = Some wr" and sr: "wf_status wr = Rejected"
    by (simp add: workflows_rejectedDemo)
  from terminal_status_amended[OF a, where t'="''t1''" and uid="''root''" and now=30] sa
       terminal_status_amended[OF r, where t'="''t1''" and uid="''adm1''" and reason="''again''"] sr
  show ?thesis by blast
qed

section \<open>Properties of the task queue\<close>

subsection \<open>Sorting\<close>

lemma compareTasks_le_iff: "compareTasks a b \<le> 0 \<longleftrightarrow> ordered a b"
  by (auto simp: compareTasks_def ordered_def Let_def)

lemma ordered_total: "ordered a b \<or> ordered b a"
  by (auto simp: ordered_def)

lemma ordered_trans: "ordered a b \<Longrightarrow> ordered b c \<Longrightarrow> ordered a c"
  by (auto simp: ordered_def)

lemma set_insertTask: "set (insertTask a xs) = insert a (set xs)"
  by (induction xs) auto

lemma mset_insertTask: "mset (insertTask a xs) = add_mset a (mset xs)"
  by (induction xs) auto

lemma sorted_insertTask: "sorted_wrt ordered xs \<Longrightarrow> sorted_wrt ordered (insertTask a xs)"
proof (induction xs)
  case Nil
  then show ?case by simp
next
  case (Cons b bs)
  show ?case
  proof (cases "compareTasks a b \<le> 0")
    case True
    then have ab: "ordered a b" by (simp add: compareTasks_le_iff)
    with Cons.prems have "\<forall>c\<in>set bs. ordered a c" by (auto intro: ordered_trans)
    with ab Cons.prems True show ?thesis by simp
  next
    case False
    then have "ordered b a" using ordered_total[of a b] by (simp add: compareTasks_le_iff)
    with False Cons show ?thesis by (auto simp: set_insertTask)
  qed
qed

lemma sorted_sortTasks: "sorted_wrt ordered (sortTasks xs)"
  unfolding sortTasks_def by (induction xs) (simp_all add: sorted_insertTask)

lemma mset_sortTasks: "mset (sortTasks xs) = mset xs"
  unfolding sortTasks_def by (induction xs) (simp_all add: mset_insertTask)

lemma set_sortTasks: "set (sortTasks xs) = set xs"
  using mset_sortTasks[of xs] by (metis set_mset_mset)

lemma distinct_ids_sortTasks: "distinct (map task_id (sortTasks xs)) = distinct (map task_id xs)"
proof -
  have "mset (map task_id (sortTasks xs)) = mset (map task_id xs)"
    by (simp add: mset_sortTasks)
  then show ?thesis by (rule mset_eq_imp_distinct_iff)
qed

subsection \<open>Conflicts\<close>

lemma fold_newSet:
  "distinct acc \<Longrightarrow>
   distinct (fold (\<lambda>x acc. if x \<in> set acc then acc else acc @ [x]) xs acc)
   \<and> set (fold (\<lambda>x acc. if x \<in> set acc then acc else acc @ [x]) xs acc) = set acc \<union> set xs"
  by (induction xs arbitrary: acc) auto

lemma distinct_newSet: "distinct (newSet xs)"
  using fold_newSet[of "[]" xs] by (simp add: newSet_def)

lemma set_newSet: "set (newSet xs) = set xs"
  using fold_newSet[of "[]" xs] by (simp add: newSet_def)

lemma set_checkResourceConflicts:
  "set (checkResourceConflicts s t) =
     {k. \<exists>r\<in>set (resources t). resourceLocks s r = Some k \<and> k \<noteq> [] \<and> k \<noteq> task_id t}"
  (is "?L = ?R")
proof
  show "?L \<subseteq> ?R"
    by (auto simp: checkResourceConflicts_def set_newSet isConflict_def split: option.splits)
next
  show "?R \<subseteq> ?L"
  proof
    fix k assume "k \<in> ?R"
    then obtain r where r: "r \<in> set (resources t)" "resourceLocks s r = Some k"
      "k \<noteq> []" "k \<noteq> task_id t" by auto
    then have "isConflict s t r" by (simp add: isConflict_def)
    with r have "k \<in> (\<lambda>r. the (resourceLocks s r)) ` {r \<in> set (resources t). isConflict s t r}"
      by (intro image_eqI[where x=r]) simp_all
    then show "k \<in> ?L" by (simp add: checkResourceConflicts_def set_newSet)
  qed
qed

subsection \<open>Locking and unlocking\<close>

lemma fold_lock:
  "fold (\<lambda>resource m. m(resource \<mapsto> k)) rs m r = (if r \<in> set rs then Some k else m r)"
  by (induction rs arbitrary: m) auto

lemma lockResources_apply:
  "lockResources t locks r = (if r \<in> set (resources t) then Some (task_id t) else locks r)"
  by (simp add: lockResources_def fold_lock)

lemma fold_unlock:
  "fold (\<lambda>resource m. if m resource = Some k then m(resource := None) else m) rs m r
     = (if r \<in> set rs \<and> m r = Some k then None else m r)"
  by (induction rs arbitrary: m) auto

lemma unlockResources_apply:
  "unlockResources t locks r
     = (if r \<in> set (resources t) \<and> locks r = Some (task_id t) then None else locks r)"
  by (simp add: unlockResources_def fold_unlock)

subsection \<open>Lists and the in-flight map\<close>

lemma update_fresh: "k \<notin> fst ` set al \<Longrightarrow> AList.update k v al = al @ [(k, v)]"
  by (induction al) auto

lemma length_update: "length (AList.update k v al) \<le> Suc (length al)"
  by (induction al) auto

lemma set_update_subset: "set (AList.update k v al) \<subseteq> insert (k, v) (set al)"
  by (induction al) auto

lemma set_delete_subset: "set (AList.delete k al) \<subseteq> set al"
  by (auto simp: AList.delete_eq)

lemma find_first:
  "\<forall>u\<in>set pre. \<not> P u \<Longrightarrow> P t \<Longrightarrow> find P (pre @ t # post) = Some t"
  by (induction pre) auto

lemma find_none: "find P xs = None \<longleftrightarrow> (\<forall>x\<in>set xs. \<not> P x)"
  by (induction xs) auto

lemma find_in: "find P xs = Some x \<Longrightarrow> x \<in> set xs \<and> P x"
  by (induction xs) (auto split: if_splits)

lemma filter_other_ids:
  "distinct (map task_id (pre @ t # post)) \<Longrightarrow>
   filter (\<lambda>u. task_id u \<noteq> task_id t) (pre @ t # post) = pre @ post"
proof -
  assume d: "distinct (map task_id (pre @ t # post))"
  then have "\<forall>u\<in>set pre. task_id u \<noteq> task_id t" "\<forall>u\<in>set post. task_id u \<noteq> task_id t"
    by (auto simp: image_iff)
  then show ?thesis by (simp add: filter_id_conv[THEN iffD2])
qed

lemma find_by_id:
  "distinct (map f xs) \<Longrightarrow>
   (case find (\<lambda>t. f t = d) xs of None \<Rightarrow> True | Some x \<Rightarrow> P x) \<longleftrightarrow> (\<forall>x\<in>set xs. f x = d \<longrightarrow> P x)"
  by (induction xs) (auto simp: image_iff)

subsection \<open>Histories with unique identifiers keep the queue consistent\<close>

text \<open>
  \<open>consistent\<close> ties the three containers together: keys of the in-flight map and
  identifiers in the backlog are unique, non-empty and apart; each in-flight task is
  stored under its own identifier and holds every one of its resources; each lock
  belongs to an in-flight task that names the resource.
\<close>

lemma consistent_new: "consistent (newTaskQueue mc)"
  by (simp add: consistent_def newTaskQueue_def)

lemma admit_consistent:
  assumes c: "consistent s" and t: "t \<in> set (queue s)" and can: "canProcessTask s t"
  shows "consistent (s\<lparr> queue := filter (\<lambda>u. task_id u \<noteq> task_id t) (queue s),
                        resourceLocks := lockResources t (resourceLocks s),
                        processing := AList.update (task_id t) (t\<lparr> status := Processing, startedAt := Some now \<rparr>) (processing s),
                        emitted := e \<rparr>)"
    (is "consistent ?s'")
proof -
  from c t have id: "task_id t \<noteq> []" "task_id t \<notin> fst ` set (processing s)"
    by (auto simp: consistent_def)
  have free: "resourceLocks s r = None" if r: "r \<in> set (resources t)" for r
  proof (cases "resourceLocks s r")
    case None
    then show ?thesis .
  next
    case (Some k)
    with c obtain u where u: "(k, u) \<in> set (processing s)"
      unfolding consistent_def by blast
    with c have "k \<noteq> []" unfolding consistent_def by blast
    moreover from u id have "k \<noteq> task_id t" by force
    ultimately have "isConflict s t r" using Some by (simp add: isConflict_def)
    with can r show ?thesis
      by (auto simp: canProcessTask_def list_ex_iff Let_def split: if_splits)
  qed
  have p: "processing ?s' = processing s @ [(task_id t, t\<lparr> status := Processing, startedAt := Some now \<rparr>)]"
    using id by (simp add: update_fresh)
  have 1: "distinct (map fst (processing ?s'))"
    using c id unfolding p by (simp add: consistent_def)
  have 2: "distinct (map task_id (queue ?s'))"
    using c by (simp add: consistent_def distinct_map_filter)
  have 3: "\<forall>(k, u)\<in>set (processing ?s').
             task_id u = k \<and> k \<noteq> [] \<and> (\<forall>r\<in>set (resources u). resourceLocks ?s' r = Some k)"
  proof -
    have "task_id u = k \<and> k \<noteq> [] \<and> (\<forall>r\<in>set (resources u). resourceLocks ?s' r = Some k)"
      if "(k, u) \<in> set (processing s)" for k u
    proof -
      from c that have old: "task_id u = k" "k \<noteq> []" "\<forall>r\<in>set (resources u). resourceLocks s r = Some k"
        unfolding consistent_def by blast+
      have "resourceLocks ?s' r = Some k" if "r \<in> set (resources u)" for r
      proof -
        from old that have "resourceLocks s r = Some k" by blast
        with free[of r] have "r \<notin> set (resources t)" by auto
        with \<open>resourceLocks s r = Some k\<close> show ?thesis by (simp add: lockResources_apply)
      qed
      with old show ?thesis by blast
    qed
    then have old: "\<forall>(k, u)\<in>set (processing s).
        task_id u = k \<and> k \<noteq> [] \<and> (\<forall>r\<in>set (resources u). resourceLocks ?s' r = Some k)"
      by blast
    have new: "\<forall>r\<in>set (resources t). resourceLocks ?s' r = Some (task_id t)"
      by (simp add: lockResources_apply)
    from old new id show ?thesis unfolding p by auto
  qed
  have 4: "\<exists>u. (k, u) \<in> set (processing ?s') \<and> r \<in> set (resources u)"
    if "resourceLocks ?s' r = Some k" for r k
  proof (cases "r \<in> set (resources t)")
    case True
    with that have "k = task_id t" by (simp add: lockResources_apply)
    with True show ?thesis unfolding p by auto
  next
    case False
    with that have "resourceLocks s r = Some k" by (simp add: lockResources_apply)
    with c obtain u where "(k, u) \<in> set (processing s)" "r \<in> set (resources u)"
      unfolding consistent_def by blast
    then show ?thesis unfolding p by auto
  qed
  have 5: "\<forall>u\<in>set (queue ?s'). task_id u \<noteq> [] \<and> task_id u \<notin> fst ` set (processing ?s')"
    using c unfolding p by (auto simp: consistent_def)
  from 1 2 3 4 5 show ?thesis unfolding consistent_def by blast
qed

lemma processNext_consistent: "consistent s \<Longrightarrow> consistent (processNext now s)"
  by (auto simp: processNext_def Let_def admit_consistent dest: find_in split: option.splits)

lemma release_consistent:
  assumes c: "consistent s" and t: "map_of (processing s) k = Some t"
    and t': "task_id t' = task_id t" "resources t' = resources t"
  shows "consistent (s\<lparr> resourceLocks := unlockResources t' (resourceLocks s),
                        processing := AList.delete k (processing s),
                        emitted := e \<rparr>)"
    (is "consistent ?s'")
proof -
  from t have kt: "(k, t) \<in> set (processing s)" by (rule map_of_SomeD)
  with c have id: "task_id t = k" and held: "\<forall>r\<in>set (resources t). resourceLocks s r = Some k"
    unfolding consistent_def by blast+
  from c have d: "distinct (map fst (processing s))" by (simp add: consistent_def)
  have l: "unlockResources t' (resourceLocks s) r
             = (if r \<in> set (resources t) then None else resourceLocks s r)" for r
    using held id t' by (auto simp: unlockResources_apply)
  have p: "set (processing ?s') = {(k', u). (k', u) \<in> set (processing s) \<and> k' \<noteq> k}"
    by (auto simp: AList.delete_eq)
  have 1: "distinct (map fst (processing ?s'))"
    using d by (simp add: distinct_delete)
  have 2: "distinct (map task_id (queue ?s'))"
    using c by (simp add: consistent_def)
  have 3: "\<forall>(k', u)\<in>set (processing ?s').
             task_id u = k' \<and> k' \<noteq> [] \<and> (\<forall>r\<in>set (resources u). resourceLocks ?s' r = Some k')"
  proof -
    have "task_id u = k' \<and> k' \<noteq> [] \<and> (\<forall>r\<in>set (resources u). resourceLocks ?s' r = Some k')"
      if "(k', u) \<in> set (processing s)" "k' \<noteq> k" for k' u
    proof -
      from c that have old: "task_id u = k'" "k' \<noteq> []" "\<forall>r\<in>set (resources u). resourceLocks s r = Some k'"
        unfolding consistent_def by blast+
      have "resourceLocks ?s' r = Some k'" if r: "r \<in> set (resources u)" for r
      proof -
        from old r have "resourceLocks s r = Some k'" by blast
        with held \<open>k' \<noteq> k\<close> have "r \<notin> set (resources t)" by auto
        with \<open>resourceLocks s r = Some k'\<close> show ?thesis by (simp add: l)
      qed
      with old show ?thesis by blast
    qed
    then show ?thesis unfolding p by auto
  qed
  have 4: "\<exists>u. (k', u) \<in> set (processing ?s') \<and> r \<in> set (resources u)"
    if "resourceLocks ?s' r = Some k'" for r k'
  proof -
    from that have nr: "r \<notin> set (resources t)" and old: "resourceLocks s r = Some k'"
      by (auto simp: l split: if_splits)
    with c obtain u where u: "(k', u) \<in> set (processing s)" "r \<in> set (resources u)"
      unfolding consistent_def by blast
    have "k' \<noteq> k"
    proof
      assume "k' = k"
      with u kt d have "u = t" by (metis eq_key_imp_eq_value)
      with u nr show False by simp
    qed
    with u show ?thesis unfolding p by auto
  qed
  have 5: "\<forall>u\<in>set (queue ?s'). task_id u \<noteq> [] \<and> task_id u \<notin> fst ` set (processing ?s')"
  proof
    fix u assume u: "u \<in> set (queue ?s')"
    then have "u \<in> set (queue s)" by simp
    with c have "task_id u \<noteq> []" "task_id u \<notin> fst ` set (processing s)"
      unfolding consistent_def by blast+
    moreover have "fst ` set (processing ?s') \<subseteq> fst ` set (processing s)"
      unfolding p by auto
    ultimately show "task_id u \<noteq> [] \<and> task_id u \<notin> fst ` set (processing ?s')" by blast
  qed
  from 1 2 3 4 5 show ?thesis unfolding consistent_def by blast
qed

lemma completeTask_consistent: "consistent s \<Longrightarrow> consistent (completeTask k st now now' s)"
  by (auto simp: completeTask_def Let_def intro!: processNext_consistent release_consistent
      split: option.splits)

lemma failTask_consistent: "consistent s \<Longrightarrow> consistent (failTask k err now now' s)"
  by (auto simp: failTask_def Let_def intro!: processNext_consistent release_consistent
      split: option.splits)

lemma addTask_consistent:
  assumes c: "consistent s" and id: "task_id t \<noteq> []" "task_id t \<notin> trackedIds s"
  shows "consistent (addTask t now s)"
proof -
  let ?t' = "t\<lparr> dependencies := dependencies t @ checkResourceConflicts s t \<rparr>"
  let ?s1 = "s\<lparr> queue := sortTasks (queue s @ [?t']), emitted := emitted s @ [TaskAdded ?t'] \<rparr>"
  have a: "addTask t now s = processNext now ?s1"
    by (simp add: addTask_def Let_def sortQueue_def)
  have "consistent ?s1"
    using c id unfolding consistent_def trackedIds_def
    by (auto simp: distinct_ids_sortTasks set_sortTasks)
  then show ?thesis unfolding a by (rule processNext_consistent)
qed

lemma run_consistent: "consistent s \<Longrightarrow> freshIds s calls \<Longrightarrow> consistent (run calls s)"
proof (induction calls arbitrary: s)
  case Nil
  then show ?case by (simp add: run_def)
next
  case (Cons c calls)
  have step: "consistent (call s c)"
    using Cons.prems
    by (cases c) (auto simp: addTask_consistent completeTask_consistent failTask_consistent
        processNext_consistent)
  have "freshIds (call s c) calls" using Cons.prems(2) by (cases c) auto
  from Cons.IH[OF step this] show ?case by (simp add: run_def)
qed

text \<open>
  A consistent queue has unique task identifiers and no lock under the empty
  identifier; so has every state that a history with unique identifiers reaches.
\<close>

lemma consistent_admission_premises:
  assumes "consistent s"
  shows "distinct (map task_id (queue s))"
    and "fst ` set (processing s) \<inter> task_id ` set (queue s) = {}"
    and "\<forall>r. resourceLocks s r \<noteq> Some []"
proof -
  from assms show "distinct (map task_id (queue s))" by (simp add: consistent_def)
  from assms have "\<forall>t\<in>set (queue s). task_id t \<notin> fst ` set (processing s)"
    unfolding consistent_def by blast
  then show "fst ` set (processing s) \<inter> task_id ` set (queue s) = {}" by force
  show "\<forall>r. resourceLocks s r \<noteq> Some []"
  proof (intro allI notI)
    fix r assume "resourceLocks s r = Some []"
    with assms obtain t where "([], t) \<in> set (processing s)"
      unfolding consistent_def by blast
    with assms show False unfolding consistent_def by blast
  qed
qed

lemma reachable_admission_premises:
  assumes "freshIds (newTaskQueue mc) calls"
  shows "distinct (map task_id (queue (run calls (newTaskQueue mc))))
     \<and> fst ` set (processing (run calls (newTaskQueue mc)))
           \<inter> task_id ` set (queue (run calls (newTaskQueue mc))) = {}
     \<and> (\<forall>r. resourceLocks (run calls (newTaskQueue mc)) r \<noteq> Some [])"
  using consistent_admission_premises[OF run_consistent[OF consistent_new assms]] by blast

subsection \<open>The example queue\<close>

lemma oneDemo_eq:
  "oneDemo = \<lparr> queue = [],
               processing = [(''a'', taskA\<lparr> status := Processing, startedAt := Some 1 \<rparr>)],
               maxConcurrent = 2,
               resourceLocks = [''web'' \<mapsto> ''a''],
               emitted = [TaskAdded taskA, TaskStarted (taskA\<lparr> status := Processing, startedAt := Some 1 \<rparr>)] \<rparr>"
  by (simp add: oneDemo_def addTask_def newTaskQueue_def checkResourceConflicts_def newSet_def
      isConflict_def sortQueue_def sortTasks_def processNext_def canProcessTask_def findDep_def
      lockResources_def taskA_def Let_def)

lemma twoDemo_eq:
  "twoDemo = \<lparr> queue = [taskB\<lparr> dependencies := [''a'', ''a''] \<rparr>],
               processing = [(''a'', taskA\<lparr> status := Processing, startedAt := Some 1 \<rparr>)],
               maxConcurrent = 2,
               resourceLocks = [''web'' \<mapsto> ''a''],
               emitted = [TaskAdded taskA, TaskStarted (taskA\<lparr> status := Processing, startedAt := Some 1 \<rparr>),
                          TaskAdded (taskB\<lparr> dependencies := [''a'', ''a''] \<rparr>)] \<rparr>"
  by (simp add: twoDemo_def oneDemo_eq addTask_def checkResourceConflicts_def newSet_def
      isConflict_def sortQueue_def sortTasks_def processNext_def canProcessTask_def findDep_def
      lockResources_def taskA_def taskB_def Let_def)

lemma twoDemo_fields:
  "queue twoDemo = [taskB\<lparr> dependencies := [''a'', ''a''] \<rparr>]"
  "processing twoDemo = [(''a'', taskA\<lparr> status := Processing, startedAt := Some 1 \<rparr>)]"
  "maxConcurrent twoDemo = 2"
  "resourceLocks twoDemo = [''web'' \<mapsto> ''a'']"
  by (simp_all add: twoDemo_eq)

lemma freshIds_demo: "freshIds (newTaskQueue 2) [AddTask taskA 1, AddTask taskB 2]"
proof -
  have a: "task_id taskA \<noteq> []" "task_id taskA \<notin> trackedIds (newTaskQueue 2)"
    by (simp_all add: trackedIds_def newTaskQueue_def taskA_def)
  have b: "task_id taskB \<noteq> []" "task_id taskB \<notin> trackedIds (addTask taskA 1 (newTaskQueue 2))"
    by (simp_all add: trackedIds_def oneDemo_eq[unfolded oneDemo_def] taskB_def)
  from a b show ?thesis by simp
qed

lemma run_demo: "run [AddTask taskA 1, AddTask taskB 2] (newTaskQueue 2) = twoDemo"
  by (simp add: run_def twoDemo_def oneDemo_def)

subsection \<open>Admission\<close>

lemma incomplete_dep_iff:
  assumes "distinct (map task_id (queue s))"
    and "fst ` set (processing s) \<inter> task_id ` set (queue s) = {}"
  shows "(case findDep s d of None \<Rightarrow> False | Some dep \<Rightarrow> status dep \<noteq> Completed)
     \<longleftrightarrow> \<not> ((case map_of (processing s) d of None \<Rightarrow> True | Some dep \<Rightarrow> status dep = Completed)
            \<and> list_all (\<lambda>dep. task_id dep = d \<longrightarrow> status dep = Completed) (queue s))"
proof (cases "map_of (processing s) d")
  case None
  have "(case find (\<lambda>t. task_id t = d) (queue s) of None \<Rightarrow> True | Some x \<Rightarrow> status x = Completed)
          \<longleftrightarrow> (\<forall>x\<in>set (queue s). task_id x = d \<longrightarrow> status x = Completed)"
    using assms(1) by (rule find_by_id)
  with None show ?thesis
    by (auto simp: findDep_def list_all_iff split: option.splits)
next
  case (Some dep)
  then have "d \<in> fst ` set (processing s)"
    by (metis map_of_SomeD fst_conv image_eqI)
  with assms(2) have "\<forall>x\<in>set (queue s). task_id x \<noteq> d" by auto
  with Some show ?thesis by (simp add: findDep_def list_all_iff)
qed

lemma canProcessTask_admissionTest:
  assumes "distinct (map task_id (queue s))"
    and "fst ` set (processing s) \<inter> task_id ` set (queue s) = {}"
    and "\<forall>r. resourceLocks s r \<noteq> Some []"
  shows "canProcessTask s t = admissionTest s t"
proof -
  have deps: "filter (\<lambda>depId. case findDep s depId of None \<Rightarrow> False | Some dep \<Rightarrow> status dep \<noteq> Completed)
                (dependencies t) = [] \<longleftrightarrow> dependenciesSatisfied s t"
    unfolding filter_empty_conv dependenciesSatisfied_def list_all_iff[of _ "dependencies t"]
    using incomplete_dep_iff[OF assms(1,2)] by blast
  have res: "\<not> list_ex (isConflict s t) (resources t) \<longleftrightarrow> resourcesUnlocked s t"
    using assms(3)
    by (auto simp: list_ex_iff resourcesUnlocked_def list_all_iff isConflict_def split: option.splits)
  show ?thesis
    using deps res by (auto simp: canProcessTask_def admissionTest_def Let_def)
qed

text \<open>
  C1. Take any state of the queue in which fewer tasks are in flight than the ceiling
  allows, task identifiers are unique (those in the backlog among themselves and against
  those in flight) and no lock is held under the empty identifier. Then
  \<open>canProcessTask\<close> is the admission test: (a) every dependency id that is still
  tracked, in flight or in the backlog, has status completed, an untracked id counting as
  satisfied, and (b) no resource of the task is locked by a different task. If no task
  of the backlog passes, \<open>processNext\<close> changes nothing. Otherwise it admits the
  earliest task that passes: that task leaves the backlog, all its resources are locked
  for it, and it enters the in-flight map with status processing and \<open>startedAt\<close>
  set; the tasks in front of it, which fail the test, stay in the backlog, as do the
  tasks behind it.
\<close>

theorem processNext_admits_first_admissible:
  assumes ceiling: "int (length (processing s)) < maxConcurrent s"
    and ids: "distinct (map task_id (queue s))"
             "fst ` set (processing s) \<inter> task_id ` set (queue s) = {}"
    and holders: "\<forall>r. resourceLocks s r \<noteq> Some []"
  shows "canProcessTask s u = admissionTest s u
     \<and> ((\<forall>v\<in>set (queue s). \<not> admissionTest s v) \<longrightarrow> processNext now s = s)
     \<and> (queue s = pre @ t # post \<and> (\<forall>v\<in>set pre. \<not> admissionTest s v) \<and> admissionTest s t \<longrightarrow>
          processNext now s =
            s\<lparr> queue := pre @ post,
               resourceLocks := (\<lambda>r. if r \<in> set (resources t) then Some (task_id t)
                                      else resourceLocks s r),
               processing := processing s @ [(task_id t, t\<lparr> status := Processing, startedAt := Some now \<rparr>)],
               emitted := emitted s @ [TaskStarted (t\<lparr> status := Processing, startedAt := Some now \<rparr>)] \<rparr>)"
proof -
  have eq: "canProcessTask s = admissionTest s"
    using canProcessTask_admissionTest[OF ids holders] by blast
  have none: "processNext now s = s" if "\<forall>v\<in>set (queue s). \<not> admissionTest s v"
  proof -
    from that have "find (admissionTest s) (queue s) = None" by (simp add: find_none)
    then show ?thesis by (simp add: processNext_def eq)
  qed
  have some: "processNext now s =
            s\<lparr> queue := pre @ post,
               resourceLocks := (\<lambda>r. if r \<in> set (resources t) then Some (task_id t)
                                      else resourceLocks s r),
               processing := processing s @ [(task_id t, t\<lparr> status := Processing, startedAt := Some now \<rparr>)],
               emitted := emitted s @ [TaskStarted (t\<lparr> status := Processing, startedAt := Some now \<rparr>)] \<rparr>"
    if q: "queue s = pre @ t # post" and pre: "\<forall>v\<in>set pre. \<not> admissionTest s v"
      and t: "admissionTest s t"
  proof -
    have f: "find (admissionTest s) (queue s) = Some t"
      unfolding q using pre t by (rule find_first)
    have rest: "filter (\<lambda>u. task_id u \<noteq> task_id t) (queue s) = pre @ post"
      using ids(1) unfolding q by (rule filter_other_ids)
    have "task_id t \<notin> fst ` set (processing s)" using ids(2) q by auto
    then have p: "AList.update (task_id t) v (processing s) = processing s @ [(task_id t, v)]" for v
      by (rule update_fresh)
    have l: "lockResources t (resourceLocks s)
               = (\<lambda>r. if r \<in> set (resources t) then Some (task_id t) else resourceLocks s r)"
      by (rule ext) (rule lockResources_apply)
    from ceiling show ?thesis
      by (simp add: processNext_def eq f rest p l Let_def)
  qed
  from eq none some show ?thesis by simp
qed

theorem processNext_admits_first_admissible_witness:
  "queue waitingDemo = [taskB\<lparr> dependencies := [''a'', ''a''] \<rparr>, taskC]
   \<and> \<not> admissionTest waitingDemo (taskB\<lparr> dependencies := [''a'', ''a''] \<rparr>)
   \<and> admissionTest waitingDemo taskC
   \<and> queue (processNext 9 waitingDemo) = [taskB\<lparr> dependencies := [''a'', ''a''] \<rparr>]
   \<and> processing (processNext 9 waitingDemo)
       = [(''a'', taskA\<lparr> status := Processing, startedAt := Some 1 \<rparr>),
          (''c'', taskC\<lparr> status := Processing, startedAt := Some 9 \<rparr>)]"
proof -
  have q: "queue waitingDemo = [taskB\<lparr> dependencies := [''a'', ''a''] \<rparr>] @ taskC # []"
    by (simp add: waitingDemo_def twoDemo_fields)
  have p: "processing waitingDemo = [(''a'', taskA\<lparr> status := Processing, startedAt := Some 1 \<rparr>)]"
    and l: "resourceLocks waitingDemo = [''web'' \<mapsto> ''a'']"
    and m: "maxConcurrent waitingDemo = 2"
    by (simp_all add: waitingDemo_def twoDemo_fields)
  have h1: "int (length (processing waitingDemo)) < maxConcurrent waitingDemo"
    by (simp add: p m)
  have h2: "distinct (map task_id (queue waitingDemo))"
    by (simp add: q taskB_def taskC_def)
  have h3: "fst ` set (processing waitingDemo) \<inter> task_id ` set (queue waitingDemo) = {}"
    by (simp add: q p taskB_def taskC_def)
  have h4: "\<forall>r. resourceLocks waitingDemo r \<noteq> Some []"
    by (simp add: l)
  have b: "\<not> admissionTest waitingDemo (taskB\<lparr> dependencies := [''a'', ''a''] \<rparr>)"
    by (simp add: admissionTest_def dependenciesSatisfied_def p taskA_def taskB_def)
  have c: "admissionTest waitingDemo taskC"
    by (simp add: admissionTest_def dependenciesSatisfied_def resourcesUnlocked_def l taskC_def)
  from processNext_admits_first_admissible[OF h1 h2 h3 h4,
      where pre="[taskB\<lparr> dependencies := [''a'', ''a''] \<rparr>]" and t=taskC and post="[]" and now=9]
    q b c
  have "processNext 9 waitingDemo =
      waitingDemo\<lparr> queue := [taskB\<lparr> dependencies := [''a'', ''a''] \<rparr>] @ [],
               resourceLocks := (\<lambda>r. if r \<in> set (resources taskC) then Some (task_id taskC)
                                      else resourceLocks waitingDemo r),
               processing := processing waitingDemo @ [(task_id taskC, taskC\<lparr> status := Processing, startedAt := Some 9 \<rparr>)],
               emitted := emitted waitingDemo @ [TaskStarted (taskC\<lparr> status := Processing, startedAt := Some 9 \<rparr>)] \<rparr>"
    by simp
  then show ?thesis using q b c by (simp add: p taskC_def)
qed

subsection \<open>The lock table\<close>

text \<open>
  C2. In every state reached from a new queue by calls whose submitted tasks carry
  unique, non-empty identifiers, the locked resources are exactly the resources of the
  in-flight tasks; every in-flight task holds the lock of each of its resources; every
  lock is held by an in-flight task that names the resource; two in-flight tasks never
  share a resource, so a resource is locked for one task at most (the table being a map,
  it has one holder per resource); and no task of the backlog holds a lock.
\<close>

theorem locks_match_in_flight:
  assumes "freshIds (newTaskQueue mc) calls" and "s = run calls (newTaskQueue mc)"
  shows "dom (resourceLocks s) = (\<Union>(k, t)\<in>set (processing s). set (resources t))
     \<and> (\<forall>(k, t)\<in>set (processing s).
           task_id t = k \<and> (\<forall>r\<in>set (resources t). resourceLocks s r = Some k))
     \<and> (\<forall>r k. resourceLocks s r = Some k \<longrightarrow>
           (\<exists>t. map_of (processing s) k = Some t \<and> r \<in> set (resources t)))
     \<and> (\<forall>(k1, t1)\<in>set (processing s). \<forall>(k2, t2)\<in>set (processing s).
           k1 \<noteq> k2 \<longrightarrow> set (resources t1) \<inter> set (resources t2) = {})
     \<and> (\<forall>t\<in>set (queue s). \<forall>r. resourceLocks s r \<noteq> Some (task_id t))"
proof -
  have c: "consistent s"
    unfolding assms(2) using consistent_new assms(1) by (rule run_consistent)
  then have d: "distinct (map fst (processing s))"
    and held: "\<And>k t r. (k, t) \<in> set (processing s) \<Longrightarrow> r \<in> set (resources t) \<Longrightarrow>
                 resourceLocks s r = Some k"
    and ids: "\<And>k t. (k, t) \<in> set (processing s) \<Longrightarrow> task_id t = k"
    and holder: "\<And>r k. resourceLocks s r = Some k \<Longrightarrow>
                 \<exists>t. (k, t) \<in> set (processing s) \<and> r \<in> set (resources t)"
    and waiting: "\<And>t. t \<in> set (queue s) \<Longrightarrow> task_id t \<notin> fst ` set (processing s)"
    unfolding consistent_def by blast+
  have 1: "dom (resourceLocks s) = (\<Union>(k, t)\<in>set (processing s). set (resources t))"
  proof (intro set_eqI iffI)
    fix r assume "r \<in> dom (resourceLocks s)"
    then obtain k where "resourceLocks s r = Some k" by auto
    from holder[OF this] show "r \<in> (\<Union>(k, t)\<in>set (processing s). set (resources t))" by auto
  next
    fix r assume "r \<in> (\<Union>(k, t)\<in>set (processing s). set (resources t))"
    then obtain k t where "(k, t) \<in> set (processing s)" "r \<in> set (resources t)" by auto
    from held[OF this] show "r \<in> dom (resourceLocks s)" by auto
  qed
  have 2: "\<forall>(k, t)\<in>set (processing s).
           task_id t = k \<and> (\<forall>r\<in>set (resources t). resourceLocks s r = Some k)"
    using held ids by blast
  have 3: "\<exists>t. map_of (processing s) k = Some t \<and> r \<in> set (resources t)"
    if "resourceLocks s r = Some k" for r k
  proof -
    from holder[OF that] obtain t where "(k, t) \<in> set (processing s)" "r \<in> set (resources t)"
      by blast
    with d show ?thesis by auto
  qed
  have 4: "set (resources t1) \<inter> set (resources t2) = {}"
    if "(k1, t1) \<in> set (processing s)" "(k2, t2) \<in> set (processing s)" "k1 \<noteq> k2" for k1 t1 k2 t2
  proof (rule ccontr)
    assume "set (resources t1) \<inter> set (resources t2) \<noteq> {}"
    then obtain r where "r \<in> set (resources t1)" "r \<in> set (resources t2)" by auto
    with that held[of k1 t1 r] held[of k2 t2 r] show False by simp
  qed
  have 5: "resourceLocks s r \<noteq> Some (task_id t)" if "t \<in> set (queue s)" for t r
  proof
    assume "resourceLocks s r = Some (task_id t)"
    from holder[OF this] have "task_id t \<in> fst ` set (processing s)" by force
    with waiting[OF that] show False by simp
  qed
  from 1 2 3 4 5 show ?thesis by blast
qed

theorem locks_match_in_flight_witness:
  "freshIds (newTaskQueue 2) [AddTask taskA 1, AddTask taskB 2]
   \<and> dom (resourceLocks twoDemo) = (\<Union>(k, t)\<in>set (processing twoDemo). set (resources t))
   \<and> dom (resourceLocks twoDemo) = {''web''}
   \<and> resourceLocks twoDemo ''web'' \<noteq> Some (task_id (taskB\<lparr> dependencies := [''a'', ''a''] \<rparr>))"
proof -
  have q: "taskB\<lparr> dependencies := [''a'', ''a''] \<rparr> \<in> set (queue twoDemo)"
    by (simp add: twoDemo_fields)
  from locks_match_in_flight[OF freshIds_demo run_demo[symmetric]]
  have "dom (resourceLocks twoDemo) = (\<Union>(k, t)\<in>set (processing twoDemo). set (resources t))"
    and "\<forall>t\<in>set (queue twoDemo). \<forall>r. resourceLocks twoDemo r \<noteq> Some (task_id t)"
    by blast+
  moreover have "dom (resourceLocks twoDemo) = {''web''}" by (simp add: twoDemo_fields)
  ultimately show ?thesis using freshIds_demo q by blast
qed

subsection \<open>The concurrency ceiling\<close>

lemma processNext_maxConcurrent: "maxConcurrent (processNext now s) = maxConcurrent s"
  by (simp add: processNext_def Let_def split: option.splits)

lemma call_maxConcurrent: "maxConcurrent (call s c) = maxConcurrent s"
  by (cases c)
     (simp_all add: addTask_def completeTask_def failTask_def sortQueue_def Let_def
        processNext_maxConcurrent split: option.splits)

lemma processNext_bounded: "bounded s \<Longrightarrow> bounded (processNext now s)"
proof -
  assume b: "bounded s"
  show ?thesis
  proof (cases "int (length (processing s)) \<ge> maxConcurrent s")
    case True
    with b show ?thesis by (simp add: processNext_def)
  next
    case False
    have "int (length (AList.update k v (processing s))) \<le> maxConcurrent s" for k v
      using False length_update[of k v "processing s"] by linarith
    with b False show ?thesis
      by (auto simp: processNext_def bounded_def Let_def distinct_update split: option.splits)
  qed
qed

lemma release_bounded:
  "bounded s \<Longrightarrow>
   bounded (s\<lparr> resourceLocks := l, processing := AList.delete k (processing s), emitted := e \<rparr>)"
  using length_delete_le[of k "processing s"] by (simp add: bounded_def distinct_delete)

lemma call_bounded: "bounded s \<Longrightarrow> bounded (call s c)"
proof (cases c)
  case (AddTask t now)
  assume "bounded s"
  then have "bounded (s\<lparr> queue := q, emitted := e \<rparr>)" for q e
    by (simp add: bounded_def)
  then show ?thesis using AddTask
    by (simp add: addTask_def sortQueue_def Let_def processNext_bounded)
next
  case (CompleteTask k st now now')
  assume "bounded s"
  then show ?thesis using CompleteTask
    by (auto simp: completeTask_def Let_def intro!: processNext_bounded release_bounded
        split: option.splits)
next
  case (FailTask k err now now')
  assume "bounded s"
  then show ?thesis using FailTask
    by (auto simp: failTask_def Let_def intro!: processNext_bounded release_bounded
        split: option.splits)
next
  case (ProcessNext now)
  assume "bounded s"
  then show ?thesis using ProcessNext by (simp add: processNext_bounded)
qed

lemma run_bounded: "bounded s \<Longrightarrow> bounded (run calls s)"
  by (induction calls arbitrary: s) (simp_all add: run_def call_bounded)

lemma run_maxConcurrent: "maxConcurrent (run calls s) = maxConcurrent s"
  by (induction calls arbitrary: s) (simp_all add: run_def call_maxConcurrent)

text \<open>
  C7. With a ceiling that is not negative, every state reached from a new queue by any
  calls has at most \<open>maxConcurrent\<close> tasks in flight (the keys of the in-flight map
  are distinct, so its length is its size), and the ceiling itself never changes. In any
  state whose in-flight count has reached the ceiling, \<open>processNext\<close> admits nothing.
\<close>

theorem in_flight_within_ceiling:
  "(0 \<le> mc \<longrightarrow>
      int (length (processing (run calls (newTaskQueue mc)))) \<le> mc
      \<and> distinct (map fst (processing (run calls (newTaskQueue mc))))
      \<and> maxConcurrent (run calls (newTaskQueue mc)) = mc)
   \<and> (int (length (processing s)) \<ge> maxConcurrent s \<longrightarrow> processNext now s = s)"
proof -
  have "bounded (run calls (newTaskQueue mc))" if "0 \<le> mc"
    using that by (intro run_bounded) (simp add: bounded_def newTaskQueue_def)
  moreover have "maxConcurrent (run calls (newTaskQueue mc)) = mc"
    by (simp add: run_maxConcurrent newTaskQueue_def)
  ultimately show ?thesis by (auto simp: bounded_def processNext_def)
qed

theorem in_flight_within_ceiling_witness:
  "(0::int) \<le> 2
   \<and> int (length (processing (run [AddTask taskA 1, AddTask taskB 2] (newTaskQueue 2)))) \<le> 2
   \<and> int (length (processing (waitingDemo\<lparr> maxConcurrent := 1 \<rparr>)))
        \<ge> maxConcurrent (waitingDemo\<lparr> maxConcurrent := 1 \<rparr>)
   \<and> processNext 9 (waitingDemo\<lparr> maxConcurrent := 1 \<rparr>) = waitingDemo\<lparr> maxConcurrent := 1 \<rparr>"
proof -
  have full: "int (length (processing (waitingDemo\<lparr> maxConcurrent := 1 \<rparr>)))
        \<ge> maxConcurrent (waitingDemo\<lparr> maxConcurrent := 1 \<rparr>)"
    by (simp add: waitingDemo_def twoDemo_fields)
  from in_flight_within_ceiling[of 2 "[AddTask taskA 1, AddTask taskB 2]"
      "waitingDemo\<lparr> maxConcurrent := 1 \<rparr>" 9] full
  show ?thesis by simp
qed

subsection \<open>Status of tracked tasks\<close>

lemma processNext_inFlight: "inFlightProcessing s \<Longrightarrow> inFlightProcessing (processNext now s)"
  using set_update_subset
  by (fastforce simp: processNext_def inFlightProcessing_def Let_def split: option.splits)

lemma release_inFlight:
  "inFlightProcessing s \<Longrightarrow>
   inFlightProcessing (s\<lparr> resourceLocks := l, processing := AList.delete k (processing s), emitted := e \<rparr>)"
  using set_delete_subset by (fastforce simp: inFlightProcessing_def)

lemma call_inFlight: "inFlightProcessing s \<Longrightarrow> inFlightProcessing (call s c)"
proof (cases c)
  case (AddTask t now)
  assume "inFlightProcessing s"
  then have "inFlightProcessing (s\<lparr> queue := q, emitted := e \<rparr>)" for q e
    by (simp add: inFlightProcessing_def)
  then show ?thesis using AddTask
    by (simp add: addTask_def sortQueue_def Let_def processNext_inFlight)
next
  case (CompleteTask k st now now')
  assume "inFlightProcessing s"
  then show ?thesis using CompleteTask
    by (auto simp: completeTask_def Let_def intro!: processNext_inFlight release_inFlight
        split: option.splits)
next
  case (FailTask k err now now')
  assume "inFlightProcessing s"
  then show ?thesis using FailTask
    by (auto simp: failTask_def Let_def intro!: processNext_inFlight release_inFlight
        split: option.splits)
next
  case (ProcessNext now)
  assume "inFlightProcessing s"
  then show ?thesis using ProcessNext by (simp add: processNext_inFlight)
qed

lemma run_inFlight: "inFlightProcessing s \<Longrightarrow> inFlightProcessing (run calls s)"
  by (induction calls arbitrary: s) (simp_all add: run_def call_inFlight)

text \<open>
  C4, as stated, fails: \<open>completeTask\<close> writes whatever status it is handed. Task
  \<open>a\<close> is in flight with status processing; completing it with \<open>'queued'\<close> sends
  it back to queued, and completing it with \<open>'waiting_approval'\<close> gives it a status
  outside the four of the claim.
\<close>

theorem task_status_counterexample:
  "map_of (processing oneDemo) ''a'' = Some (taskA\<lparr> status := Processing, startedAt := Some 1 \<rparr>)
   \<and> last (emitted (completeTask ''a'' Queued 5 6 oneDemo))
       = TaskCompleted (taskA\<lparr> status := Queued, startedAt := Some 1, completedAt := Some 5 \<rparr>)
   \<and> last (emitted (completeTask ''a'' WaitingApproval 5 6 oneDemo))
       = TaskCompleted (taskA\<lparr> status := WaitingApproval, startedAt := Some 1, completedAt := Some 5 \<rparr>)"
  by (simp add: oneDemo_eq completeTask_def processNext_def taskA_def Let_def)

text \<open>
  C4, amended. In every state reached from a new queue, each in-flight task has status
  processing. \<open>completeTask\<close> on an in-flight task sets the status it is handed (any
  \<open>TaskStatus\<close>; \<open>'completed'\<close> when the caller omits it) and \<open>completedAt\<close>,
  \<open>failTask\<close> sets failed and \<open>completedAt\<close>; both release the task's locks,
  drop it from the in-flight map, announce it and run the next admission. Either call
  with an id that is not in flight changes nothing.
\<close>

theorem task_status_amended:
  "(\<forall>(k, t)\<in>set (processing (run calls (newTaskQueue mc))). status t = Processing)
   \<and> (map_of (processing s) tid = Some t \<longrightarrow>
        completeTask tid st now now' s =
          processNext now'
            (s\<lparr> resourceLocks := unlockResources t (resourceLocks s),
               processing := AList.delete tid (processing s),
               emitted := emitted s @ [TaskCompleted (t\<lparr> status := st, completedAt := Some now \<rparr>)] \<rparr>)
        \<and> failTask tid err now now' s =
          processNext now'
            (s\<lparr> resourceLocks := unlockResources t (resourceLocks s),
               processing := AList.delete tid (processing s),
               emitted := emitted s @ [TaskFailed (t\<lparr> status := Failed, completedAt := Some now \<rparr>) err] \<rparr>))
   \<and> (map_of (processing s) tid = None \<longrightarrow>
        completeTask tid st now now' s = s \<and> failTask tid err now now' s = s)"
proof -
  have "inFlightProcessing (run calls (newTaskQueue mc))"
    by (intro run_inFlight) (simp add: inFlightProcessing_def newTaskQueue_def)
  then show ?thesis
    by (simp add: inFlightProcessing_def completeTask_def failTask_def unlockResources_def Let_def)
qed

theorem task_status_amended_witness:
  "map_of (processing oneDemo) ''b'' = None
   \<and> completeTask ''b'' Completed 5 6 oneDemo = oneDemo
   \<and> failTask ''b'' ''boom'' 5 6 oneDemo = oneDemo
   \<and> map_of (processing oneDemo) ''a'' = Some (taskA\<lparr> status := Processing, startedAt := Some 1 \<rparr>)
   \<and> completeTask ''a'' Completed 5 6 oneDemo =
       processNext 6
         (oneDemo\<lparr> resourceLocks := unlockResources (taskA\<lparr> status := Processing, startedAt := Some 1 \<rparr>)
                                     (resourceLocks oneDemo),
                    processing := AList.delete ''a'' (processing oneDemo),
                    emitted := emitted oneDemo @
                      [TaskCompleted (taskA\<lparr> status := Processing, startedAt := Some 1,
                                             status := Completed, completedAt := Some 5 \<rparr>)] \<rparr>)
   \<and> (''a'', taskA\<lparr> status := Processing, startedAt := Some 1 \<rparr>)
         \<in> set (processing (run [AddTask taskA 1] (newTaskQueue 2)))
   \<and> status (taskA\<lparr> status := Processing, startedAt := Some 1 \<rparr>) = Processing"
proof -
  have a: "map_of (processing oneDemo) ''a'' = Some (taskA\<lparr> status := Processing, startedAt := Some 1 \<rparr>)"
    and b: "map_of (processing oneDemo) ''b'' = None"
    by (simp_all add: oneDemo_eq)
  have r: "(''a'', taskA\<lparr> status := Processing, startedAt := Some 1 \<rparr>)
         \<in> set (processing (run [AddTask taskA 1] (newTaskQueue 2)))"
    using a by (simp add: run_def oneDemo_eq flip: oneDemo_def)
  note inst = task_status_amended[where calls="[AddTask taskA 1]" and mc=2 and s=oneDemo
      and now=5 and now'=6 and err="''boom''" and st=Completed]
  from inst[where tid="''a''" and t="taskA\<lparr> status := Processing, startedAt := Some 1 \<rparr>"]
       inst[where tid="''b''"] a b r
  show ?thesis by blast
qed

subsection \<open>Submission\<close>

lemma trackedIds_processNext: "trackedIds (processNext now s) = trackedIds s"
proof (cases "int (length (processing s)) \<ge> maxConcurrent s")
  case True
  then show ?thesis by (simp add: processNext_def)
next
  case False
  show ?thesis
  proof (cases "find (canProcessTask s) (queue s)")
    case None
    with False show ?thesis by (simp add: processNext_def)
  next
    case (Some t)
    then have t: "t \<in> set (queue s)" by (auto dest: find_in)
    have "task_id ` set (filter (\<lambda>u. task_id u \<noteq> task_id t) (queue s)) \<union> {task_id t}
            = task_id ` set (queue s)"
      using t by auto
    with False Some show ?thesis
      by (auto simp: processNext_def trackedIds_def Let_def dom_update)
  qed
qed

text \<open>
  C9, as stated, fails: only the conflicts are deduplicated, among themselves. Task
  \<open>b\<close> already depends on \<open>a\<close>, which holds the lock on the resource \<open>b\<close>
  needs; after submission \<open>a\<close> occurs twice in the dependencies of \<open>b\<close>.
\<close>

theorem addTask_counterexample:
  "dependencies taskB = [''a'']
   \<and> resources taskB = [''web'']
   \<and> resourceLocks oneDemo ''web'' = Some ''a''
   \<and> queue (addTask taskB 2 oneDemo) = [taskB\<lparr> dependencies := [''a'', ''a''] \<rparr>]
   \<and> \<not> distinct (dependencies (hd (queue (addTask taskB 2 oneDemo))))"
  using twoDemo_fields(1) by (simp add: twoDemo_def oneDemo_eq taskB_def)

text \<open>
  C9, amended. \<open>addTask\<close> has no failing path. It appends to the task's dependencies
  the conflicts: each non-empty identifier, other than the task's own, that holds the
  lock on one of the task's resources, each once (identifiers already among the
  dependencies may then occur again). It puts the task into the backlog and sorts the
  backlog, a rearrangement of the same tasks in which priority weight
  (urgent 4, high 3, medium 2, low 1) descends and \<open>createdAt\<close> ascends among equal
  weights; then it runs the admission, after which the task is in the backlog or in
  flight.
\<close>

theorem addTask_amended:
  "addTask t now s =
     processNext now
       (s\<lparr> queue := sortTasks (queue s @ [t\<lparr> dependencies := dependencies t @ checkResourceConflicts s t \<rparr>]),
          emitted := emitted s @ [TaskAdded (t\<lparr> dependencies := dependencies t @ checkResourceConflicts s t \<rparr>)] \<rparr>)
   \<and> distinct (checkResourceConflicts s t)
   \<and> set (checkResourceConflicts s t)
       = {k. \<exists>r\<in>set (resources t). resourceLocks s r = Some k \<and> k \<noteq> [] \<and> k \<noteq> task_id t}
   \<and> sorted_wrt ordered (sortTasks q)
   \<and> mset (sortTasks q) = mset q
   \<and> task_id t \<in> trackedIds (addTask t now s)"
proof -
  have a: "addTask t now s =
     processNext now
       (s\<lparr> queue := sortTasks (queue s @ [t\<lparr> dependencies := dependencies t @ checkResourceConflicts s t \<rparr>]),
          emitted := emitted s @ [TaskAdded (t\<lparr> dependencies := dependencies t @ checkResourceConflicts s t \<rparr>)] \<rparr>)"
    by (simp add: addTask_def sortQueue_def Let_def)
  have "task_id t \<in> trackedIds (addTask t now s)"
    unfolding a trackedIds_processNext by (simp add: trackedIds_def set_sortTasks)
  with a show ?thesis
    by (simp add: checkResourceConflicts_def[of s t, THEN arg_cong[of _ _ distinct]]
        distinct_newSet set_checkResourceConflicts sorted_sortTasks mset_sortTasks)
qed

theorem addTask_amended_witness:
  "checkResourceConflicts oneDemo taskB = [''a'']
   \<and> set (checkResourceConflicts oneDemo taskB)
       = {k. \<exists>r\<in>set (resources taskB). resourceLocks oneDemo r = Some k \<and> k \<noteq> [] \<and> k \<noteq> task_id taskB}
   \<and> sortTasks [taskA, taskC, taskB] = [taskB, taskC, taskA]
   \<and> sorted_wrt ordered (sortTasks [taskA, taskC, taskB])
   \<and> task_id taskB \<in> trackedIds (addTask taskB 2 oneDemo)"
proof -
  have "checkResourceConflicts oneDemo taskB = [''a'']"
    by (simp add: checkResourceConflicts_def newSet_def isConflict_def oneDemo_eq taskB_def)
  moreover have "sortTasks [taskA, taskC, taskB] = [taskB, taskC, taskA]"
    by (simp add: sortTasks_def compareTasks_def taskA_def taskB_def taskC_def)
  moreover from addTask_amended[of taskB 2 oneDemo "[taskA, taskC, taskB]"]
  have "set (checkResourceConflicts oneDemo taskB)
       = {k. \<exists>r\<in>set (resources taskB). resourceLocks oneDemo r = Some k \<and> k \<noteq> [] \<and> k \<noteq> task_id taskB}"
    and "sorted_wrt ordered (sortTasks [taskA, taskC, taskB])"
    and "task_id taskB \<in> trackedIds (addTask taskB 2 oneDemo)"
    by blast+
  ultimately show ?thesis by blast
qed

end
